theory Spec2Isabelle
  imports Complex_Main "HOL-Library.AList" "HOL-Library.Multiset"
begin

section \<open>Host values\<close>

text \<open>
  The values a \<^verbatim>\<open>DataRow\<close> or a cell output can hold (\<^verbatim>\<open>unknown\<close> in the
  source). A number is a finite double, taken as the real number it denotes, or
  \<^verbatim>\<open>NaN\<close>; rounding and the infinities are outside the model. A value that is not
  a primitive is known by its kind (a \<^verbatim>\<open>Date\<close>, an array, any other object) and
  its reference.
\<close>

datatype jsnum = Fin real | NaN

datatype objkind = DateObject | ArrayObject | PlainObject

datatype jsval =
  VUndefined | VNull | VBool bool | VNum jsnum | VStr string | VObj objkind nat

text \<open>The tests \<^verbatim>\<open>v === null || v === undefined\<close> and \<^verbatim>\<open>typeof v === 'number'\<close>.\<close>

fun is_nullish :: "jsval \<Rightarrow> bool" where
  "is_nullish VUndefined = True"
| "is_nullish VNull = True"
| "is_nullish v = False"

fun is_number :: "jsval \<Rightarrow> bool" where
  "is_number (VNum n) = True"
| "is_number v = False"

text \<open>\<^verbatim>\<open>isNaN(v)\<close>, where it is applied to a value already known to be a number.\<close>

fun isNaN :: "jsval \<Rightarrow> bool" where
  "isNaN (VNum NaN) = True"
| "isNaN v = False"

text \<open>
  Strict equality \<^verbatim>\<open>===\<close>: the same primitive or the same reference, except that
  \<^verbatim>\<open>NaN\<close> equals nothing. The keys of a \<^verbatim>\<open>Map\<close> are compared with
  \<^verbatim>\<open>SameValueZero\<close>, which is \<open>=\<close> on \<^typ>\<open>jsval\<close>.
\<close>

definition strict_eq :: "jsval \<Rightarrow> jsval \<Rightarrow> bool" where
  "strict_eq a b = (a = b \<and> a \<noteq> VNum NaN)"

text \<open>The number a value known to be a number holds; arithmetic with \<^verbatim>\<open>NaN\<close> gives \<^verbatim>\<open>NaN\<close>.\<close>

fun number_of :: "jsval \<Rightarrow> jsnum" where
  "number_of (VNum n) = n"
| "number_of v = NaN"

fun real_of :: "jsnum \<Rightarrow> real" where
  "real_of (Fin x) = x"
| "real_of NaN = 0"

fun num_add :: "jsnum \<Rightarrow> jsnum \<Rightarrow> jsnum" where
  "num_add (Fin x) (Fin y) = Fin (x + y)"
| "num_add a b = NaN"

fun num_sub :: "jsnum \<Rightarrow> jsnum \<Rightarrow> jsnum" where
  "num_sub (Fin x) (Fin y) = Fin (x - y)"
| "num_sub a b = NaN"

fun num_mul :: "jsnum \<Rightarrow> jsnum \<Rightarrow> jsnum" where
  "num_mul (Fin x) (Fin y) = Fin (x * y)"
| "num_mul a b = NaN"

text \<open>Division is only ever applied to a divisor that the source has tested to be non-zero.\<close>

fun num_div :: "jsnum \<Rightarrow> jsnum \<Rightarrow> jsnum" where
  "num_div (Fin x) (Fin y) = (if y = 0 then NaN else Fin (x / y))"
| "num_div a b = NaN"

fun num_min :: "jsnum \<Rightarrow> jsnum \<Rightarrow> jsnum" where
  "num_min (Fin x) (Fin y) = Fin (min x y)"
| "num_min a b = NaN"

fun num_max :: "jsnum \<Rightarrow> jsnum \<Rightarrow> jsnum" where
  "num_max (Fin x) (Fin y) = Fin (max x y)"
| "num_max a b = NaN"

section \<open>Thrown values\<close>

text \<open>
  A step function, a callback or a cell executor may throw any value. The runners only
  look at \<^verbatim>\<open>err instanceof Error ? err.message : String(err)\<close>, so a thrown value
  is either an \<^verbatim>\<open>Error\<close> object with its message or some other value together
  with the string the host's \<^verbatim>\<open>String\<close> conversion gives for it.
\<close>

datatype thrown = ErrorObject string | OtherValue string

fun error_message :: "thrown \<Rightarrow> string" where
  "error_message (ErrorObject m) = m"
| "error_message (OtherValue s) = s"

section \<open>Decimal rendering of an index\<close>

text \<open>
  The template literal \<^verbatim>\<open>`step-${i}`\<close> renders the loop index in decimal.
  \<open>digit_char\<close> is applied to a digit, a number below ten, only.
\<close>

definition digit_char :: "nat \<Rightarrow> char" where
  "digit_char d = ''0123456789'' ! d"

function string_of_index :: "nat \<Rightarrow> string" where
  "string_of_index n =
     (if n < 10 then [digit_char n]
      else string_of_index (n div 10) @ [digit_char (n mod 10)])"
  by pat_completeness auto
termination
  by (relation "measure id") auto

declare string_of_index.simps [simp del]

section \<open>Pipeline runner (src/pipeline/runner.ts)\<close>

datatype StepStatus = StepPending | StepRunning | StepCompleted | StepFailed | StepSkipped

datatype PipelineStatus = RunCompleted | RunFailed | RunPartial

text \<open>
  A \<^verbatim>\<open>PipelineStep\<close> as the runner builds it: the optional fields
  \<^verbatim>\<open>startedAt\<close>, \<^verbatim>\<open>completedAt\<close> and \<^verbatim>\<open>error\<close> are options
  (\<open>None\<close> is an absent property). The runner never sets \<^verbatim>\<open>description\<close> or
  \<^verbatim>\<open>metadata\<close>.
\<close>

record PipelineStep =
  step_id :: string
  step_name :: string
  step_status :: StepStatus
  step_error :: "string option"
  step_startedAt :: "nat option"
  step_completedAt :: "nat option"

text \<open>
  \<^verbatim>\<open>maxRetries\<close> is a natural number: the configuration schema declares it
  \<^verbatim>\<open>z.number().int().nonnegative()\<close>.
\<close>

record PipelineConfig =
  config_name :: string
  config_description :: "string option"
  config_steps :: "string list"
  retryOnFailure :: bool
  maxRetries :: nat
  continueOnError :: bool
  verbose :: bool

text \<open>
  Everything a step function can change besides the value it returns: the wall clock
  read by \<^verbatim>\<open>Date.now()\<close> (time passes while a step is awaited), the \<^verbatim>\<open>logs\<close>
  array the context's \<^verbatim>\<open>log\<close> pushes to, and the state \<open>'w\<close> of the closures
  themselves (a flaky step counts its attempts there).
\<close>

record 'w env =
  clock :: nat
  logs :: "string list"
  world :: 'w

record 'w PipelineContext =
  pipelineName :: string
  stepIndex :: nat
  totalSteps :: nat
  ctx_log :: "string \<Rightarrow> 'w env \<Rightarrow> 'w env"

text \<open>
  The context's \<^verbatim>\<open>metadata\<close> is a new empty object at every step and is left out.
  A step function is awaited: it either resolves to the next value (\<open>Inr\<close>) or rejects
  with a thrown value (\<open>Inl\<close>), and leaves a new environment. The
  \<^verbatim>\<open>onStepComplete\<close> callback returns nothing or throws.
\<close>

type_synonym ('a, 'w) StepFn =
  "'a \<Rightarrow> 'w PipelineContext \<Rightarrow> 'w env \<Rightarrow> (thrown + 'a) \<times> 'w env"

type_synonym 'w StepCallback =
  "PipelineStep \<Rightarrow> 'w env \<Rightarrow> thrown option \<times> 'w env"

record ('a, 'w) PipelineDefinition =
  config :: PipelineConfig
  stepFns :: "string \<Rightarrow> ('a, 'w) StepFn option"

record PipelineResult =
  result_pipelineName :: string
  result_status :: PipelineStatus
  result_steps :: "PipelineStep list"
  result_startedAt :: nat
  result_completedAt :: nat
  result_durationMs :: int
  result_error :: "string option"

record 'a PipelineRunResult =
  run_result :: PipelineResult
  run_output :: 'a

text \<open>The local variables of \<^verbatim>\<open>executePipeline\<close> that its loop updates.\<close>

record ('a, 'w) run_state =
  currentInput :: 'a
  pipelineStatus :: PipelineStatus
  pipelineError :: "string option"
  stepResults :: "PipelineStep list"
  run_env :: "'w env"

definition make_context :: "PipelineConfig \<Rightarrow> nat \<Rightarrow> string \<Rightarrow> 'w PipelineContext" where
  "make_context cfg i stepName =
     \<lparr>pipelineName = config_name cfg,
      stepIndex = i,
      totalSteps = length (config_steps cfg),
      ctx_log = (\<lambda>msg e. e\<lparr>logs := logs e @ [''['' @ stepName @ ''] '' @ msg]\<rparr>)\<rparr>"

text \<open>
  The \<^verbatim>\<open>catch\<close> block of the retry loop. \<open>final\<close> is the test
  \<^verbatim>\<open>attempts >= maxAttempts\<close>: on any earlier attempt the error is dropped.
\<close>

definition on_catch ::
  "PipelineConfig \<Rightarrow> bool \<Rightarrow> thrown \<Rightarrow> PipelineStep \<times> ('a, 'w) run_state
     \<Rightarrow> PipelineStep \<times> ('a, 'w) run_state" where
  "on_catch cfg final err p =
     (case p of (step, st) \<Rightarrow>
        if final then
          (step\<lparr>step_status := StepFailed,
                step_error := Some (error_message err),
                step_completedAt := Some (clock (run_env st))\<rparr>,
           st\<lparr>pipelineStatus := (if continueOnError cfg then RunPartial else RunFailed),
              pipelineError := Some (error_message err)\<rparr>)
        else (step, st))"

text \<open>
  The retry loop \<^verbatim>\<open>while (attempts < maxAttempts && !success)\<close>. The third argument
  counts the attempts that are left, \<^verbatim>\<open>maxAttempts - attempts\<close>, so the attempt made
  in the equation for \<open>Suc k\<close> is the last one exactly when \<open>k = 0\<close>. A resolved step
  sets \<^verbatim>\<open>currentInput\<close>, marks the step completed and then calls
  \<^verbatim>\<open>onStepComplete\<close> inside the same \<^verbatim>\<open>try\<close>: a throwing callback lands in
  the \<^verbatim>\<open>catch\<close> block with \<^verbatim>\<open>success\<close> already true, which ends the loop.
\<close>

fun attempt_loop ::
  "PipelineConfig \<Rightarrow> 'w StepCallback option \<Rightarrow> ('a, 'w) StepFn \<Rightarrow> 'w PipelineContext
     \<Rightarrow> nat \<Rightarrow> PipelineStep \<times> ('a, 'w) run_state \<Rightarrow> PipelineStep \<times> ('a, 'w) run_state" where
  "attempt_loop cfg cb f ctx 0 p = p"
| "attempt_loop cfg cb f ctx (Suc k) (step, st) =
     (case f (currentInput st) ctx (run_env st) of
        (Inr v, e1) \<Rightarrow>
          (let step1 = step\<lparr>step_status := StepCompleted, step_completedAt := Some (clock e1)\<rparr>;
               st1 = st\<lparr>currentInput := v, run_env := e1\<rparr>
           in case cb of
                None \<Rightarrow> (step1, st1)
              | Some g \<Rightarrow>
                  (case g step1 e1 of
                     (None, e2) \<Rightarrow> (step1, st1\<lparr>run_env := e2\<rparr>)
                   | (Some err, e2) \<Rightarrow> on_catch cfg (k = 0) err (step1, st1\<lparr>run_env := e2\<rparr>)))
      | (Inl err, e1) \<Rightarrow>
          attempt_loop cfg cb f ctx k (on_catch cfg (k = 0) err (step, st\<lparr>run_env := e1\<rparr>)))"

definition skipped_step :: "nat \<Rightarrow> string \<Rightarrow> PipelineStep" where
  "skipped_step j stepName =
     \<lparr>step_id = ''step-'' @ string_of_index j, step_name = stepName,
      step_status = StepSkipped, step_error = None,
      step_startedAt = None, step_completedAt = None\<rparr>"

text \<open>The inner loop \<^verbatim>\<open>for (let j = i + 1; j < config.steps.length; j++)\<close>.\<close>

fun mark_skipped :: "nat \<Rightarrow> string list \<Rightarrow> PipelineStep list" where
  "mark_skipped j [] = []"
| "mark_skipped j (stepName # rest) = skipped_step j stepName # mark_skipped (Suc j) rest"

definition max_attempts :: "PipelineConfig \<Rightarrow> nat" where
  "max_attempts cfg = (if retryOnFailure cfg then maxRetries cfg + 1 else 1)"

text \<open>
  The main loop \<^verbatim>\<open>for (let i = 0; i < config.steps.length; i++)\<close>, as a recursion
  on the index \<open>i\<close> and the step names from \<^verbatim>\<open>config.steps[i]\<close> on. The
  \<^verbatim>\<open>break\<close>s return the state; \<^verbatim>\<open>continue\<close> and the end of the body recurse.
\<close>

fun run_steps ::
  "('a, 'w) PipelineDefinition \<Rightarrow> 'w StepCallback option \<Rightarrow> nat \<Rightarrow> string list
     \<Rightarrow> ('a, 'w) run_state \<Rightarrow> ('a, 'w) run_state" where
  "run_steps p cb i [] st = st"
| "run_steps p cb i (stepName # rest) st =
     (case stepFns p stepName of
        None \<Rightarrow>
          (let step = \<lparr>step_id = ''step-'' @ string_of_index i, step_name = stepName,
                       step_status = StepFailed,
                       step_error = Some (''Step function not found: '' @ stepName),
                       step_startedAt = Some (clock (run_env st)),
                       step_completedAt = Some (clock (run_env st))\<rparr>;
               st1 = st\<lparr>stepResults := stepResults st @ [step],
                        pipelineStatus := RunFailed,
                        pipelineError := step_error step\<rparr>
           in if \<not> continueOnError (config p) then st1
              else run_steps p cb (Suc i) rest st1)
      | Some f \<Rightarrow>
          (let step0 = \<lparr>step_id = ''step-'' @ string_of_index i, step_name = stepName,
                        step_status = StepRunning, step_error = None,
                        step_startedAt = Some (clock (run_env st)),
                        step_completedAt = None\<rparr>;
               ctx = make_context (config p) i stepName
           in case attempt_loop (config p) cb f ctx (max_attempts (config p)) (step0, st) of
                (step, st1) \<Rightarrow>
                  (let st2 = st1\<lparr>stepResults := stepResults st1 @ [step]\<rparr>
                   in if step_status step = StepFailed \<and> \<not> continueOnError (config p)
                      then st2\<lparr>stepResults := stepResults st2 @ mark_skipped (Suc i) rest\<rparr>
                      else run_steps p cb (Suc i) rest st2)))"

definition initial_state :: "'a \<Rightarrow> 'w env \<Rightarrow> ('a, 'w) run_state" where
  "initial_state input e =
     \<lparr>currentInput = input, pipelineStatus = RunCompleted,
      pipelineError = None, stepResults = [], run_env = e\<rparr>"

definition executePipeline ::
  "('a, 'w) PipelineDefinition \<Rightarrow> 'a \<Rightarrow> 'w StepCallback option \<Rightarrow> 'w env
     \<Rightarrow> 'a PipelineRunResult \<times> 'w env" where
  "executePipeline p input cb e =
     (let startedAt = clock e;
          st = run_steps p cb 0 (config_steps (config p)) (initial_state input e);
          completedAt = clock (run_env st)
      in (\<lparr>run_result =
             \<lparr>result_pipelineName = config_name (config p),
              result_status = pipelineStatus st,
              result_steps = stepResults st,
              result_startedAt = startedAt,
              result_completedAt = completedAt,
              result_durationMs = int completedAt - int startedAt,
              result_error = pipelineError st\<rparr>,
           run_output = currentInput st\<rparr>,
          run_env st))"

text \<open>
  A step "throws on all of its attempts": each of the \<open>k\<close> calls, made one after the
  other on the same input from the environment the previous call left, rejects.
\<close>

fun all_attempts_throw ::
  "('a, 'w) StepFn \<Rightarrow> 'a \<Rightarrow> 'w PipelineContext \<Rightarrow> nat \<Rightarrow> 'w env \<Rightarrow> bool" where
  "all_attempts_throw f v ctx 0 e = True"
| "all_attempts_throw f v ctx (Suc k) e =
     (case f v ctx e of
        (Inl err, e1) \<Rightarrow> all_attempts_throw f v ctx k e1
      | (Inr w, e1) \<Rightarrow> False)"

text \<open>
  What the loop maintains when every step it meets is registered: either nothing has
  failed, the status is \<^verbatim>\<open>completed\<close> and every recorded step is completed, or a
  recorded step has failed and the status is the one the flag selects.
\<close>

definition run_invariant :: "PipelineConfig \<Rightarrow> ('a, 'w) run_state \<Rightarrow> bool" where
  "run_invariant cfg st =
     ((pipelineStatus st = RunCompleted \<and>
       list_all (\<lambda>s. step_status s = StepCompleted) (stepResults st)) \<or>
      (pipelineStatus st = (if continueOnError cfg then RunPartial else RunFailed) \<and>
       list_ex (\<lambda>s. step_status s = StepFailed) (stepResults st)))"

subsection \<open>Example pipelines\<close>

text \<open>
  The pipelines of the runner's tests, over integers and with stateless steps:
  \<^verbatim>\<open>ok\<close> adds one, \<^verbatim>\<open>fail\<close> throws \<^verbatim>\<open>new Error('boom')\<close>,
  \<^verbatim>\<open>after\<close> adds ten.
\<close>

definition env0 :: "unit env" where
  "env0 = \<lparr>clock = 1000, logs = [], world = ()\<rparr>"

definition ok_step :: "(int, unit) StepFn" where
  "ok_step n ctx e = (Inr (n + 1), e)"

definition fail_step :: "(int, unit) StepFn" where
  "fail_step n ctx e = (Inl (ErrorObject ''boom''), e)"

definition after_step :: "(int, unit) StepFn" where
  "after_step n ctx e = (Inr (n + 10), e)"

definition example_config :: "bool \<Rightarrow> string list \<Rightarrow> PipelineConfig" where
  "example_config coe names =
     \<lparr>config_name = ''example'', config_description = None, config_steps = names,
      retryOnFailure = False, maxRetries = 3, continueOnError = coe, verbose = False\<rparr>"

definition throwing_pipeline :: "bool \<Rightarrow> (int, unit) PipelineDefinition" where
  "throwing_pipeline coe =
     \<lparr>config = example_config coe [''ok'', ''fail'', ''after''],
      stepFns = [''ok'' \<mapsto> ok_step, ''fail'' \<mapsto> fail_step, ''after'' \<mapsto> after_step]\<rparr>"

text \<open>
  A definition whose step list names \<^verbatim>\<open>missing\<close>, for which no function is
  registered (built by hand, as the test "handles missing step function" does).
\<close>

definition missing_pipeline :: "bool \<Rightarrow> (int, unit) PipelineDefinition" where
  "missing_pipeline coe =
     \<lparr>config = example_config coe [''missing'', ''after''],
      stepFns = [''after'' \<mapsto> after_step]\<rparr>"

section \<open>Notebook cells (src/notebook/cell.ts)\<close>

datatype CellType = CodeCell | MarkdownCell | RawCell

datatype CellStatus = CellIdle | CellRunning | CellCompleted | CellError | CellSkipped

datatype CellOutputType =
  OutText | OutTable | OutChart | OutImage | OutHtml | OutJson | OutError

record CellOutput =
  output_type :: CellOutputType
  output_data :: jsval
  output_mimeType :: "string option"

record Cell =
  cell_id :: string
  cell_type :: CellType
  cell_source :: string
  cell_outputs :: "CellOutput list"
  cell_status :: CellStatus
  cell_executionCount :: "nat option"
  cell_metadata :: "(string \<times> jsval) list option"
  cell_tags :: "string list option"

definition createOutput :: "CellOutputType \<Rightarrow> jsval \<Rightarrow> string option \<Rightarrow> CellOutput" where
  "createOutput t d m = \<lparr>output_type = t, output_data = d, output_mimeType = m\<rparr>"

definition markRunning :: "Cell \<Rightarrow> nat \<Rightarrow> Cell" where
  "markRunning cell n =
     cell\<lparr>cell_status := CellRunning, cell_executionCount := Some n, cell_outputs := []\<rparr>"

definition markCompleted :: "Cell \<Rightarrow> CellOutput list \<Rightarrow> Cell" where
  "markCompleted cell outs = cell\<lparr>cell_status := CellCompleted, cell_outputs := outs\<rparr>"

definition markError :: "Cell \<Rightarrow> string \<Rightarrow> Cell" where
  "markError cell err =
     cell\<lparr>cell_status := CellError, cell_outputs := [createOutput OutError (VStr err) None]\<rparr>"

section \<open>Notebook runner (src/notebook/runner.ts)\<close>

text \<open>
  \<^verbatim>\<open>String.prototype.trim\<close> removes white space and line terminators from both ends.
  A \<^typ>\<open>char\<close> is one of the code units 0 to 255; among those the host counts tab, line
  feed, vertical tab, form feed, carriage return, space and no-break space. Code units
  above 255 are outside the model.
\<close>

definition js_whitespace :: "char \<Rightarrow> bool" where
  "js_whitespace c = (of_char c \<in> {9, 10, 11, 12, 13, 32, 160 :: nat})"

definition trim :: "string \<Rightarrow> string" where
  "trim s = rev (dropWhile js_whitespace (rev (dropWhile js_whitespace s)))"

record ExecutionContext =
  variables :: "(string \<times> jsval) list"
  executionCount :: nat
  startedAt :: nat
  context_metadata :: "(string \<times> jsval) list"

text \<open>
  What an executor can change: the shared context object it is handed, and the state
  \<open>'w\<close> of its own closure (a spy counts its invocations there).
\<close>

record 'w exec_state =
  exec_context :: ExecutionContext
  executor_world :: 'w

text \<open>An awaited executor resolves to outputs (\<open>Inr\<close>) or rejects with a thrown value (\<open>Inl\<close>).\<close>

type_synonym 'w CellExecutor =
  "string \<Rightarrow> 'w exec_state \<Rightarrow> (thrown + CellOutput list) \<times> 'w exec_state"

definition executeCell ::
  "Cell \<Rightarrow> 'w CellExecutor \<Rightarrow> 'w exec_state \<Rightarrow> Cell \<times> 'w exec_state" where
  "executeCell cell executor s =
     (if cell_type cell \<noteq> CodeCell then (cell\<lparr>cell_status := CellSkipped\<rparr>, s)
      else if length (trim (cell_source cell)) = 0 then (cell\<lparr>cell_status := CellSkipped\<rparr>, s)
      else
        (let s1 = s\<lparr>exec_context :=
                      (exec_context s)\<lparr>executionCount := executionCount (exec_context s) + 1\<rparr>\<rparr>;
             running = markRunning cell (executionCount (exec_context s1))
         in case executor (cell_source cell) s1 of
              (Inr outputs, s2) \<Rightarrow> (markCompleted running outputs, s2)
            | (Inl err, s2) \<Rightarrow> (markError running (error_message err), s2)))"

subsection \<open>Example cells and executors\<close>

text \<open>
  A spy that counts its invocations in its closure state and then throws
  \<^verbatim>\<open>new Error('kaboom')\<close>.
\<close>

definition throwing_spy :: "nat CellExecutor" where
  "throwing_spy src s = (Inl (ErrorObject ''kaboom''), s\<lparr>executor_world := executor_world s + 1\<rparr>)"

definition example_cell :: "CellType \<Rightarrow> string \<Rightarrow> Cell" where
  "example_cell t src =
     \<lparr>cell_id = ''c1'', cell_type = t, cell_source = src, cell_outputs = [],
      cell_status = CellIdle, cell_executionCount = None, cell_metadata = None,
      cell_tags = None\<rparr>"

definition exec_state0 :: "nat exec_state" where
  "exec_state0 =
     \<lparr>exec_context = \<lparr>variables = [], executionCount = 0, startedAt = 1000, context_metadata = []\<rparr>,
      executor_world = 0\<rparr>"

section \<open>Datasets (src/pipeline/dataset.ts)\<close>

text \<open>
  A \<^verbatim>\<open>DataRow\<close> is a plain object: its own properties in insertion order.
  Reading a property that is absent gives \<^verbatim>\<open>undefined\<close> (a column is not named
  after a member of \<^verbatim>\<open>Object.prototype\<close>); writing one replaces the
  value in place or appends the property, which is what the spread
  \<^verbatim>\<open>{...r, [column]: v}\<close> does to a copy of \<open>r\<close>. (The host lists keys that
  look like array indices before the others; the order of the columns plays no part in
  what follows.)
\<close>

type_synonym DataRow = "(string \<times> jsval) list"

definition get_prop :: "DataRow \<Rightarrow> string \<Rightarrow> jsval" where
  "get_prop row k = (case map_of row k of None \<Rightarrow> VUndefined | Some v \<Rightarrow> v)"

definition set_prop :: "DataRow \<Rightarrow> string \<Rightarrow> jsval \<Rightarrow> DataRow" where
  "set_prop row k v = AList.update k v row"

definition object_keys :: "DataRow \<Rightarrow> string list" where
  "object_keys row = map fst row"

datatype ColumnType =
  TypeString | TypeNumber | TypeBoolean | TypeDate | TypeObject | TypeArray | TypeNull

record ColumnSchema =
  column_name :: string
  column_type :: ColumnType
  nullable :: bool

record DatasetMetadata =
  meta_name :: string
  meta_description :: "string option"
  meta_rows :: nat
  meta_columns :: "ColumnSchema list"
  meta_createdAt :: "nat option"

text \<open>
  A dataset holds a reference to its \<^verbatim>\<open>rows\<close> array. The store maps a reference
  (an index) to the contents of the array allocated under it, and carries the clock that
  \<^verbatim>\<open>Date.now()\<close> reads. No function of the library writes to an array or to a row
  object that it did not create itself, so the store only grows, and a row inside an array
  is kept as a value.
\<close>

record Dataset =
  metadata :: DatasetMetadata
  rows :: nat

record store =
  arrays :: "DataRow list list"
  now :: nat

definition alloc :: "DataRow list \<Rightarrow> store \<Rightarrow> nat \<times> store" where
  "alloc xs s = (length (arrays s), s\<lparr>arrays := arrays s @ [xs]\<rparr>)"

text \<open>The contents of an array; every reference a program holds is below \<open>length (arrays s)\<close>.\<close>

definition array_at :: "store \<Rightarrow> nat \<Rightarrow> DataRow list" where
  "array_at s r = (if r < length (arrays s) then arrays s ! r else [])"

fun inferColumnType :: "jsval \<Rightarrow> ColumnType" where
  "inferColumnType VNull = TypeNull"
| "inferColumnType VUndefined = TypeNull"
| "inferColumnType (VStr s) = TypeString"
| "inferColumnType (VNum n) = TypeNumber"
| "inferColumnType (VBool b) = TypeBoolean"
| "inferColumnType (VObj DateObject r) = TypeDate"
| "inferColumnType (VObj ArrayObject r) = TypeArray"
| "inferColumnType (VObj PlainObject r) = TypeObject"

text \<open>
  The \<^verbatim>\<open>Set\<close> of column names: every key of every row, in the order of first
  appearance.
\<close>

definition add_name :: "string list \<Rightarrow> string \<Rightarrow> string list" where
  "add_name seen k = (if k \<in> set seen then seen else seen @ [k])"

definition columnNames :: "DataRow list \<Rightarrow> string list" where
  "columnNames rs = foldl (\<lambda>seen row. foldl add_name seen (object_keys row)) [] rs"

text \<open>
  The scan for the first non-null value of a column: the type found (or \<^verbatim>\<open>'null'\<close>)
  and the flag \<^verbatim>\<open>hasNull\<close>, set by the null rows passed before the \<^verbatim>\<open>break\<close>.
\<close>

fun scan_column :: "string \<Rightarrow> DataRow list \<Rightarrow> ColumnType \<times> bool" where
  "scan_column colName [] = (TypeNull, False)"
| "scan_column colName (row # rest) =
     (if is_nullish (get_prop row colName) then (fst (scan_column colName rest), True)
      else (inferColumnType (get_prop row colName), False))"

definition inferSchema :: "DataRow list \<Rightarrow> string \<Rightarrow> DatasetMetadata" where
  "inferSchema rs name =
     (if length rs = 0 then
        \<lparr>meta_name = name, meta_description = None, meta_rows = 0, meta_columns = [],
         meta_createdAt = None\<rparr>
      else
        \<lparr>meta_name = name, meta_description = None, meta_rows = length rs,
         meta_columns =
           map (\<lambda>colName.
                  \<lparr>column_name = colName,
                   column_type = fst (scan_column colName rs),
                   nullable = (snd (scan_column colName rs) \<or>
                               list_ex (\<lambda>r. is_nullish (get_prop r colName)) rs)\<rparr>)
               (columnNames rs),
         meta_createdAt = None\<rparr>)"

text \<open>
  \<^verbatim>\<open>createDataset(rows, name, description)\<close> keeps the array it is given: the dataset
  refers to \<open>r\<close> itself. A description is stored when it is truthy, that is, given and
  not the empty string. The default \<^verbatim>\<open>'dataset'\<close> of the parameter \<^verbatim>\<open>name\<close> is
  for the caller to pass.
\<close>

definition createDataset :: "nat \<Rightarrow> string \<Rightarrow> string option \<Rightarrow> store \<Rightarrow> Dataset" where
  "createDataset r name description s =
     (let m = inferSchema (array_at s r) name;
          m1 = (if description \<noteq> None \<and> description \<noteq> Some [] then
                  m\<lparr>meta_description := description\<rparr> else m);
          m2 = m1\<lparr>meta_createdAt := Some (now s)\<rparr>
      in \<lparr>metadata = m2, rows = r\<rparr>)"

text \<open>
  \<^verbatim>\<open>sortBy\<close> sorts a copy of the rows with the host's \<^verbatim>\<open>Array.prototype.sort\<close>,
  which is not code of the repository: it is the parameter \<open>hsort\<close> below. The comparator
  it is given is the one of the source; \<open>lt\<close> is the host's operator \<^verbatim>\<open><\<close> on two
  values that are neither \<^verbatim>\<open>null\<close> nor \<^verbatim>\<open>undefined\<close>.
\<close>

definition compare_rows ::
  "(jsval \<Rightarrow> jsval \<Rightarrow> bool) \<Rightarrow> string \<Rightarrow> bool \<Rightarrow> DataRow \<Rightarrow> DataRow \<Rightarrow> int" where
  "compare_rows lt column ascending a b =
     (let va = get_prop a column; vb = get_prop b column
      in if strict_eq va vb then 0
         else if is_nullish va then 1
         else if is_nullish vb then - 1
         else (let cmp = (if lt va vb then - 1 else 1) in if ascending then cmp else - cmp))"

definition sortBy ::
  "((DataRow \<Rightarrow> DataRow \<Rightarrow> int) \<Rightarrow> DataRow list \<Rightarrow> DataRow list) \<Rightarrow>
   (jsval \<Rightarrow> jsval \<Rightarrow> bool) \<Rightarrow> Dataset \<Rightarrow> string \<Rightarrow> bool \<Rightarrow> store \<Rightarrow> Dataset \<times> store" where
  "sortBy hsort lt dataset column ascending s =
     (let sorted = hsort (compare_rows lt column ascending) (array_at s (rows dataset));
          (r, s1) = alloc sorted s
      in (createDataset r (meta_name (metadata dataset)) None s1, s1))"

subsection \<open>What is asked of the host's sort\<close>

text \<open>
  Two neighbours \<open>x\<close>, \<open>y\<close> of a sorted array are in order unless the comparator, asked
  either way, puts \<open>y\<close> strictly first: \<open>cmp x y > 0\<close> and \<open>cmp y x < 0\<close>.
\<close>

fun neighbours_ok :: "('a \<Rightarrow> 'a \<Rightarrow> int) \<Rightarrow> 'a list \<Rightarrow> bool" where
  "neighbours_ok cmp [] = True"
| "neighbours_ok cmp [x] = True"
| "neighbours_ok cmp (x # y # rest) =
     (\<not> (0 < cmp x y \<and> cmp y x < 0) \<and> neighbours_ok cmp (y # rest))"

text \<open>
  The contract: for every comparator and array, the sort returns the elements it was
  given, and no two neighbours of the result stand in an order the comparator denies both
  ways. For a consistent comparator the language requires more, the sorted order, of
  which this is a consequence. For any other comparator the language leaves the order to
  the engine, and \<open>compare_rows\<close> is such a comparator as soon as a column holds
  \<^verbatim>\<open>NaN\<close>, values that \<^verbatim>\<open><\<close> does not order, or \<^verbatim>\<open>null\<close> next to
  \<^verbatim>\<open>undefined\<close>; so what \<^verbatim>\<open>sortBy\<close> returns depends on the engine, and whatever is
  said of the order of its rows is said of an engine that meets this contract.
\<close>

definition host_sort_contract ::
  "((DataRow \<Rightarrow> DataRow \<Rightarrow> int) \<Rightarrow> DataRow list \<Rightarrow> DataRow list) \<Rightarrow> bool" where
  "host_sort_contract hsort =
     (\<forall>cmp xs. mset (hsort cmp xs) = mset xs \<and> neighbours_ok cmp (hsort cmp xs))"

subsection \<open>The sort of V8 on a short array\<close>

text \<open>
  Node's engine sorts with TimSort. On an array of fewer than 64 elements the minimal run
  length is the length of the array, and the sort comes to this: take the run the array
  starts with (\<^verbatim>\<open>CountAndMakeRun\<close>), which is strictly descending and then reversed if
  the second element compares below the first, and non-descending otherwise; then insert
  each remaining element at the place a binary search finds for it in the sorted part
  (\<^verbatim>\<open>BinaryInsertionSort\<close>). Every comparison is \<open>cmp\<close> of the later element and an
  earlier one. Longer arrays are cut into such runs, which are then merged; the merging
  follows below. As a function on all lists, \<open>short_array_sort\<close> is one sort that meets
  the contract.

  \<open>run_more\<close> counts the elements that continue the run after \<open>previous\<close>.
\<close>

fun run_more :: "('a \<Rightarrow> 'a \<Rightarrow> int) \<Rightarrow> bool \<Rightarrow> 'a \<Rightarrow> 'a list \<Rightarrow> nat" where
  "run_more cmp isDescending previous [] = 0"
| "run_more cmp isDescending previous (current # rest) =
     (let order = cmp current previous
      in if isDescending then (if order \<ge> 0 then 0 else Suc (run_more cmp isDescending current rest))
         else (if order < 0 then 0 else Suc (run_more cmp isDescending current rest)))"

text \<open>The run, made ascending, and the elements after it.\<close>

fun count_and_make_run :: "('a \<Rightarrow> 'a \<Rightarrow> int) \<Rightarrow> 'a list \<Rightarrow> 'a list \<times> 'a list" where
  "count_and_make_run cmp [] = ([], [])"
| "count_and_make_run cmp [x] = ([x], [])"
| "count_and_make_run cmp (x # y # rest) =
     (let isDescending = (cmp y x < 0);
          runLength = 2 + run_more cmp isDescending y rest;
          run = take runLength (x # y # rest)
      in (if isDescending then rev run else run, drop runLength (x # y # rest)))"

text \<open>
  The binary search of \<^verbatim>\<open>BinaryInsertionSort\<close> for the place of \<open>pivot\<close> among
  \<open>placed\<close>, the part already sorted, between the indices \<open>left\<close> and \<open>right\<close>.
\<close>

function binary_position :: "('a \<Rightarrow> 'a \<Rightarrow> int) \<Rightarrow> 'a \<Rightarrow> 'a list \<Rightarrow> nat \<Rightarrow> nat \<Rightarrow> nat" where
  "binary_position cmp pivot placed left right =
     (if left < right then
        (let mid = left + (right - left) div 2;
             order = cmp pivot (placed ! mid)
         in if order < 0 then binary_position cmp pivot placed left mid
            else binary_position cmp pivot placed (mid + 1) right)
      else left)"
  by pat_completeness auto
termination
  by (relation "measure (\<lambda>(cmp, pivot, placed, left, right). right - left)") auto

declare binary_position.simps [simp del]

definition insert_pivot :: "('a \<Rightarrow> 'a \<Rightarrow> int) \<Rightarrow> 'a list \<Rightarrow> 'a \<Rightarrow> 'a list" where
  "insert_pivot cmp placed pivot =
     (let left = binary_position cmp pivot placed 0 (length placed)
      in take left placed @ pivot # drop left placed)"

definition short_array_sort :: "('a \<Rightarrow> 'a \<Rightarrow> int) \<Rightarrow> 'a list \<Rightarrow> 'a list" where
  "short_array_sort cmp xs =
     (if length xs < 2 then xs
      else (case count_and_make_run cmp xs of
              (run, rest) \<Rightarrow> foldl (insert_pivot cmp) run rest))"

subsection \<open>The sort of V8 on a long array\<close>

text \<open>
  On 64 elements or more, TimSort cuts the array into runs, each found by
  \<^verbatim>\<open>CountAndMakeRun\<close> and grown by \<^verbatim>\<open>BinaryInsertionSort\<close> to the minimal run
  length, keeps them on a stack and merges neighbouring runs (\<^verbatim>\<open>MergeAt\<close>) until one
  is left. Which runs are merged when, and when a merge leaves the element-by-element
  mode for galloping, depends on counters (\<^verbatim>\<open>MergeCollapse\<close>, \<^verbatim>\<open>minGallop\<close>) that do
  not bear on the order of neighbours. They are left open here: the relations below hold
  of every result the engine can reach, whatever these counters are, and of more.

  \<^verbatim>\<open>GallopLeft\<close>, \<^verbatim>\<open>GallopRight\<close> and the binary search that ends them look for a
  position \<open>k\<close> in a run by probing elements: a probe at \<open>m\<close> either says that the position
  is at \<open>m\<close> or left of it, or that it is right of \<open>m\<close>. \<open>narrowed goes_left run lo hi k\<close>:
  probes between \<open>lo\<close> and \<open>hi\<close> have closed the interval on \<open>k\<close>. For \<^verbatim>\<open>GallopRight\<close>
  with a key, \<open>goes_left e\<close> is \<open>cmp key e < 0\<close>; for \<^verbatim>\<open>GallopLeft\<close> it is
  \<open>\<not> cmp e key < 0\<close>.
\<close>

inductive narrowed :: "('a \<Rightarrow> bool) \<Rightarrow> 'a list \<Rightarrow> nat \<Rightarrow> nat \<Rightarrow> nat \<Rightarrow> bool"
  for goes_left :: "'a \<Rightarrow> bool" and run :: "'a list" where
  found: "narrowed goes_left run k k k"
| probe_left: "lo \<le> m \<Longrightarrow> m < hi \<Longrightarrow> goes_left (run ! m) \<Longrightarrow>
               narrowed goes_left run lo m k \<Longrightarrow> narrowed goes_left run lo hi k"
| probe_right: "lo \<le> m \<Longrightarrow> m < hi \<Longrightarrow> \<not> goes_left (run ! m) \<Longrightarrow>
                narrowed goes_left run (m + 1) hi k \<Longrightarrow> narrowed goes_left run lo hi k"

text \<open>
  \<^verbatim>\<open>MergeLow\<close> merges from the left. \<open>forward_merge cmp pre A B res\<close>: with \<open>pre\<close>
  written so far and \<open>A\<close>, \<open>B\<close> what is left of the two runs, the merge can end with
  \<open>res\<close>. One step compares the two heads (\<open>order = cmp b a\<close>; \<open>b\<close> goes first if
  \<open>order < 0\<close>), or gallops: it looks for the head of one run in the other, copies the
  elements before the position found, then the head. A run that is empty ends the merge
  (\<^verbatim>\<open>Succeed\<close>), and so may a left run of one element, which then goes last
  (\<^verbatim>\<open>CopyB\<close>).
\<close>

inductive forward_merge ::
  "('a \<Rightarrow> 'a \<Rightarrow> int) \<Rightarrow> 'a list \<Rightarrow> 'a list \<Rightarrow> 'a list \<Rightarrow> 'a list \<Rightarrow> bool"
  for cmp :: "'a \<Rightarrow> 'a \<Rightarrow> int" where
  left_empty: "forward_merge cmp pre [] B (pre @ B)"
| right_empty: "forward_merge cmp pre A [] (pre @ A)"
| copy_right: "forward_merge cmp pre [a] B (pre @ B @ [a])"
| take_right: "cmp b a < 0 \<Longrightarrow> forward_merge cmp (pre @ [b]) (a # A) B res \<Longrightarrow>
               forward_merge cmp pre (a # A) (b # B) res"
| take_left: "\<not> cmp b a < 0 \<Longrightarrow> forward_merge cmp (pre @ [a]) A (b # B) res \<Longrightarrow>
              forward_merge cmp pre (a # A) (b # B) res"
| gallop_left_run: "narrowed (\<lambda>e. cmp b e < 0) A 0 (length A) k \<Longrightarrow>
              forward_merge cmp (pre @ take k A @ [b]) (drop k A) B res \<Longrightarrow>
              forward_merge cmp pre A (b # B) res"
| gallop_right_run: "narrowed (\<lambda>e. \<not> cmp e a < 0) B 0 (length B) k \<Longrightarrow>
              forward_merge cmp (pre @ take k B @ [a]) A (drop k B) res \<Longrightarrow>
              forward_merge cmp pre (a # A) B res"

text \<open>
  \<^verbatim>\<open>MergeHigh\<close> is the same merge from the right: it compares the last elements
  (\<open>order = cmp b a\<close>; \<open>a\<close> goes last if \<open>order < 0\<close>), gallops for the last element of one
  run in the other, and ends with \<^verbatim>\<open>CopyA\<close> when one element of \<open>B\<close> is left. Read from
  right to left, with the runs exchanged and the arguments of the comparator exchanged,
  it is \<open>forward_merge\<close>.
\<close>

definition backward_merge ::
  "('a \<Rightarrow> 'a \<Rightarrow> int) \<Rightarrow> 'a list \<Rightarrow> 'a list \<Rightarrow> 'a list \<Rightarrow> 'a list \<Rightarrow> bool" where
  "backward_merge cmp A B post res =
     forward_merge (\<lambda>x y. cmp y x) (rev post) (rev B) (rev A) (rev res)"

text \<open>
  \<^verbatim>\<open>MergeAt\<close> on two neighbouring runs \<open>A\<close>, \<open>B\<close>: the elements of \<open>A\<close> before the
  position of the first element of \<open>B\<close> stay (\<^verbatim>\<open>GallopRight\<close>), and so do the elements
  of \<open>B\<close> from the position of the last element of \<open>A\<close> on (\<^verbatim>\<open>GallopLeft\<close>); what is
  between is merged, from the left or from the right.
\<close>

inductive merge_at :: "('a \<Rightarrow> 'a \<Rightarrow> int) \<Rightarrow> 'a list \<Rightarrow> 'a list \<Rightarrow> 'a list \<Rightarrow> bool"
  for cmp :: "'a \<Rightarrow> 'a \<Rightarrow> int" where
  in_place: "B \<noteq> [] \<Longrightarrow> narrowed (\<lambda>e. cmp (hd B) e < 0) A 0 (length A) (length A) \<Longrightarrow>
             merge_at cmp A B (A @ B)"
| merge_low: "B \<noteq> [] \<Longrightarrow> narrowed (\<lambda>e. cmp (hd B) e < 0) A 0 (length A) k \<Longrightarrow>
              k < length A \<Longrightarrow>
              narrowed (\<lambda>e. \<not> cmp e (last A) < 0) B 0 (length B) l \<Longrightarrow>
              forward_merge cmp (take k A) (drop k A) (take l B) res \<Longrightarrow>
              merge_at cmp A B (res @ drop l B)"
| merge_high: "B \<noteq> [] \<Longrightarrow> narrowed (\<lambda>e. cmp (hd B) e < 0) A 0 (length A) k \<Longrightarrow>
               k < length A \<Longrightarrow>
               narrowed (\<lambda>e. \<not> cmp e (last A) < 0) B 0 (length B) l \<Longrightarrow>
               backward_merge cmp (drop k A) (take l B) (drop l B) res \<Longrightarrow>
               merge_at cmp A B (take k A @ res)"

text \<open>
  The states of the sort of \<open>xs\<close>: the runs on the stack, from the left, and the elements
  not yet in a run. A new run is the run \<open>todo\<close> starts with, grown by binary insertion of
  the next \<open>n\<close> elements; any two neighbouring runs may be merged. The sort is over when
  nothing is left to do and one run is left; an array of fewer than two elements is
  returned as it is.
\<close>

inductive sort_state ::
  "('a \<Rightarrow> 'a \<Rightarrow> int) \<Rightarrow> 'a list \<Rightarrow> 'a list list \<Rightarrow> 'a list \<Rightarrow> bool"
  for cmp :: "'a \<Rightarrow> 'a \<Rightarrow> int" and xs :: "'a list" where
  start: "sort_state cmp xs [] xs"
| push_run: "sort_state cmp xs runs todo \<Longrightarrow> todo \<noteq> [] \<Longrightarrow>
             count_and_make_run cmp todo = (run, rest) \<Longrightarrow> n \<le> length rest \<Longrightarrow>
             sort_state cmp xs (runs @ [foldl (insert_pivot cmp) run (take n rest)]) (drop n rest)"
| merge_runs: "sort_state cmp xs (earlier @ A # B # later) todo \<Longrightarrow> merge_at cmp A B merged \<Longrightarrow>
               sort_state cmp xs (earlier @ merged # later) todo"

definition timsort_result :: "('a \<Rightarrow> 'a \<Rightarrow> int) \<Rightarrow> 'a list \<Rightarrow> 'a list \<Rightarrow> bool" where
  "timsort_result cmp xs ys = (if length xs < 2 then ys = xs else sort_state cmp xs [ys] [])"

text \<open>
  \<open>in_order cmp x y\<close>: the comparator does not deny both ways that \<open>x\<close> may stand before
  \<open>y\<close>. \<open>linked cmp xs ys\<close>: where \<open>xs\<close> ends and \<open>ys\<close> starts, the two neighbours are in
  order.
\<close>

abbreviation (input) in_order :: "('a \<Rightarrow> 'a \<Rightarrow> int) \<Rightarrow> 'a \<Rightarrow> 'a \<Rightarrow> bool" where
  "in_order cmp x y \<equiv> \<not> (0 < cmp x y \<and> cmp y x < 0)"

definition linked :: "('a \<Rightarrow> 'a \<Rightarrow> int) \<Rightarrow> 'a list \<Rightarrow> 'a list \<Rightarrow> bool" where
  "linked cmp xs ys = (xs = [] \<or> ys = [] \<or> in_order cmp (last xs) (hd ys))"

text \<open>
  \<^verbatim>\<open>getNumericColumn\<close> keeps the values with
  \<^verbatim>\<open>typeof v === 'number' && !isNaN(v)\<close>; what it returns are finite numbers.
\<close>

definition getNumericColumn :: "store \<Rightarrow> Dataset \<Rightarrow> string \<Rightarrow> real list" where
  "getNumericColumn s dataset column =
     map (\<lambda>v. real_of (number_of v))
       (filter (\<lambda>v. is_number v \<and> \<not> isNaN v)
          (map (\<lambda>r. get_prop r column) (array_at s (rows dataset))))"

text \<open>\<^verbatim>\<open>columns\<close> is \<open>None\<close> when the optional argument is left out.\<close>

definition dropNulls :: "Dataset \<Rightarrow> string list option \<Rightarrow> store \<Rightarrow> Dataset \<times> store" where
  "dropNulls dataset columns s =
     (let cols = (case columns of
                    Some cs \<Rightarrow> cs
                  | None \<Rightarrow> map column_name (meta_columns (metadata dataset)));
          filtered = filter (\<lambda>row. list_all (\<lambda>col. \<not> is_nullish (get_prop row col)) cols)
                       (array_at s (rows dataset));
          (r, s1) = alloc filtered s
      in (createDataset r (meta_name (metadata dataset)) None s1, s1))"

section \<open>Statistics (src/pipeline/statistics.ts)\<close>

text \<open>
  The functions below are applied by \<^verbatim>\<open>describeColumn\<close> to what
  \<^verbatim>\<open>getNumericColumn\<close> returns, so their arguments are lists of finite numbers.
\<close>

definition sum_values :: "real list \<Rightarrow> real" where
  "sum_values values = foldl (\<lambda>a b. a + b) 0 values"

definition mean :: "real list \<Rightarrow> real" where
  "mean values = (if length values = 0 then 0 else sum_values values / real (length values))"

text \<open>
  \<^verbatim>\<open>[...values].sort((a, b) => a - b)\<close>: on finite numbers the comparator is
  consistent, and the result is the ascending order.
\<close>

definition median :: "real list \<Rightarrow> real" where
  "median values =
     (if length values = 0 then 0
      else (let sorted = sort values; mid = length sorted div 2
            in if length sorted mod 2 = 0 then (sorted ! (mid - 1) + sorted ! mid) / 2
               else sorted ! mid))"

definition variance :: "real list \<Rightarrow> real" where
  "variance values =
     (if length values < 2 then 0
      else (let avg = mean values
            in foldl (\<lambda>s v. s + (v - avg) ^ 2) 0 values / real (length values - 1)))"

definition stddev :: "real list \<Rightarrow> real" where
  "stddev values = sqrt (variance values)"

text \<open>
  An index outside the array reads \<^verbatim>\<open>undefined\<close>. \<^verbatim>\<open>quantile\<close> returns
  \<^verbatim>\<open>sorted[base]\<close> as it is when \<^verbatim>\<open>sorted[base + 1]\<close> is undefined, and
  computes with it otherwise, which gives \<^verbatim>\<open>NaN\<close> if \<^verbatim>\<open>sorted[base]\<close> is
  undefined.
\<close>

definition index_at :: "real list \<Rightarrow> int \<Rightarrow> jsval" where
  "index_at xs i = (if 0 \<le> i \<and> i < int (length xs) then VNum (Fin (xs ! nat i)) else VUndefined)"

definition quantile :: "real list \<Rightarrow> real \<Rightarrow> jsval" where
  "quantile values q =
     (if length values = 0 then VNum (Fin 0)
      else (let sorted = sort values;
                pos = (real (length sorted) - 1) * q;
                base = \<lfloor>pos\<rfloor>;
                rest = pos - real_of_int base
            in if index_at sorted (base + 1) \<noteq> VUndefined then
                 VNum (num_add (number_of (index_at sorted base))
                         (num_mul (Fin rest)
                            (num_sub (number_of (index_at sorted (base + 1)))
                                     (number_of (index_at sorted base)))))
               else index_at sorted base))"

record DescriptiveStats =
  stats_column :: string
  stats_count :: nat
  stats_mean :: real
  stats_median :: real
  stats_min :: real
  stats_max :: real
  stats_stddev :: real
  stats_variance :: real
  stats_q25 :: jsval
  stats_q75 :: jsval
  stats_nullCount :: nat

text \<open>
  \<^verbatim>\<open>values.length > 0 ? Math.min(...values) : 0\<close>, and the same with
  \<^verbatim>\<open>Math.max\<close>: the host functions are only called with at least one argument.
\<close>

definition describeColumn :: "store \<Rightarrow> Dataset \<Rightarrow> string \<Rightarrow> DescriptiveStats" where
  "describeColumn s dataset column =
     (let values = getNumericColumn s dataset column;
          allValues = map (\<lambda>r. get_prop r column) (array_at s (rows dataset));
          nullCount = length (filter is_nullish allValues)
      in \<lparr>stats_column = column,
          stats_count = length values,
          stats_mean = mean values,
          stats_median = median values,
          stats_min = (case values of [] \<Rightarrow> 0 | v # vs \<Rightarrow> fold min vs v),
          stats_max = (case values of [] \<Rightarrow> 0 | v # vs \<Rightarrow> fold max vs v),
          stats_stddev = stddev values,
          stats_variance = variance values,
          stats_q25 = quantile values 0.25,
          stats_q75 = quantile values 0.75,
          stats_nullCount = nullCount\<rparr>)"

section \<open>Transforms (src/pipeline/transform.ts)\<close>

datatype AggFn = AggSum | AggAvg | AggCount | AggMin | AggMax

record AggSpec =
  agg_column :: string
  agg_fn :: AggFn

text \<open>
  The \<^verbatim>\<open>Map\<close> from a raw key to the rows of its group, in the order in which the
  keys are first seen: a row joins the group of its key, or opens a new group at the end.
\<close>

definition add_to_group ::
  "(jsval \<times> DataRow list) list \<Rightarrow> jsval \<Rightarrow> DataRow \<Rightarrow> (jsval \<times> DataRow list) list" where
  "add_to_group groups key row =
     (let group = (case map_of groups key of None \<Rightarrow> [] | Some g \<Rightarrow> g)
      in AList.update key (group @ [row]) groups)"

definition group_rows :: "string \<Rightarrow> DataRow list \<Rightarrow> (jsval \<times> DataRow list) list" where
  "group_rows groupColumn rs =
     foldl (\<lambda>groups row. add_to_group groups (get_prop row groupColumn) row) [] rs"

text \<open>
  The body of the loop over the aggregations: \<open>values\<close> are the numbers
  (\<^verbatim>\<open>typeof v === 'number'\<close>, so \<^verbatim>\<open>NaN\<close> included) of the source column in the
  group, and the \<^verbatim>\<open>switch\<close> computes the value stored under the alias.
\<close>

definition aggregate_value :: "DataRow list \<Rightarrow> AggSpec \<Rightarrow> jsval" where
  "aggregate_value rs spec =
     (let values = map number_of
                     (filter is_number (map (\<lambda>r. get_prop r (agg_column spec)) rs))
      in case agg_fn spec of
           AggSum \<Rightarrow> VNum (foldl num_add (Fin 0) values)
         | AggAvg \<Rightarrow>
             (if length values > 0
              then VNum (num_div (foldl num_add (Fin 0) values) (Fin (real (length values))))
              else VNum (Fin 0))
         | AggCount \<Rightarrow> VNum (Fin (real (length rs)))
         | AggMin \<Rightarrow> (case values of [] \<Rightarrow> VNull | v # vs \<Rightarrow> VNum (fold num_min vs v))
         | AggMax \<Rightarrow> (case values of [] \<Rightarrow> VNull | v # vs \<Rightarrow> VNum (fold num_max vs v)))"

definition aggregate_group ::
  "string \<Rightarrow> (string \<times> AggSpec) list \<Rightarrow> jsval \<times> DataRow list \<Rightarrow> DataRow" where
  "aggregate_group groupColumn aggregations g =
     foldl (\<lambda>aggregated (alias, spec). set_prop aggregated alias (aggregate_value (snd g) spec))
       [(groupColumn, fst g)] aggregations"

text \<open>
  \<^verbatim>\<open>aggregations\<close> is an object from alias to specification: its entries in
  insertion order, each alias once.
\<close>

definition aggregate ::
  "Dataset \<Rightarrow> string \<Rightarrow> (string \<times> AggSpec) list \<Rightarrow> store \<Rightarrow> Dataset \<times> store" where
  "aggregate dataset groupColumn aggregations s =
     (let groups = group_rows groupColumn (array_at s (rows dataset));
          result = map (aggregate_group groupColumn aggregations) groups;
          (r, s1) = alloc result s
      in (createDataset r (meta_name (metadata dataset)) None s1, s1))"

text \<open>
  \<^verbatim>\<open>normalize\<close>. With no numeric value in the column the function returns its
  argument: the same dataset object, holding the same \<^verbatim>\<open>rows\<close> array.
\<close>

definition normalize_column :: "Dataset \<Rightarrow> string \<Rightarrow> store \<Rightarrow> Dataset \<times> store" where
  "normalize_column dataset column s =
     (case getNumericColumn s dataset column of
        [] \<Rightarrow> (dataset, s)
      | v # vs \<Rightarrow>
          (let mn = fold min vs v;
               mx = fold max vs v;
               range = mx - mn
           in if range = 0 then
                (let (r, s1) =
                       alloc (map (\<lambda>r. set_prop r column
                                     (if is_number (get_prop r column) then VNum (Fin 0)
                                      else get_prop r column))
                                (array_at s (rows dataset))) s
                 in (createDataset r (meta_name (metadata dataset)) None s1, s1))
              else
                (let (r, s1) =
                       alloc (map (\<lambda>r. set_prop r column
                                     (if is_number (get_prop r column)
                                      then VNum (num_div (num_sub (number_of (get_prop r column))
                                                                  (Fin mn)) (Fin range))
                                      else get_prop r column))
                                (array_at s (rows dataset))) s
                 in (createDataset r (meta_name (metadata dataset)) None s1, s1))))"

subsection \<open>Predicates used to state the properties\<close>

text \<open>
  The rows whose \<open>column\<close> is \<^verbatim>\<open>null\<close> or \<^verbatim>\<open>undefined\<close> all come after the
  rows in which it holds a value.
\<close>

fun nulls_last :: "string \<Rightarrow> DataRow list \<Rightarrow> bool" where
  "nulls_last column [] = True"
| "nulls_last column (r # rs) =
     (if is_nullish (get_prop r column) then list_all (\<lambda>r. is_nullish (get_prop r column)) rs
      else nulls_last column rs)"


text \<open>
  The schema of a dataset lists every key of every one of its rows, as the schema that
  \<^verbatim>\<open>createDataset\<close> infers does.
\<close>

definition schema_covers :: "store \<Rightarrow> Dataset \<Rightarrow> bool" where
  "schema_covers s d =
     (\<forall>row\<in>set (array_at s (rows d)).
        set (object_keys row) \<subseteq> set (map column_name (meta_columns (metadata d))))"

subsection \<open>Example datasets\<close>

text \<open>
  \<^verbatim>\<open>createDataset([...], name)\<close> on an array literal: the literal is a new array, and
  the dataset refers to it.
\<close>

definition dataset_of_rows :: "DataRow list \<Rightarrow> string \<Rightarrow> store \<Rightarrow> Dataset \<times> store" where
  "dataset_of_rows rs name s = (let (r, s1) = alloc rs s in (createDataset r name None s1, s1))"

definition store0 :: store where
  "store0 = \<lparr>arrays = [], now = 1000\<rparr>"

text \<open>The operator \<^verbatim>\<open><\<close> on two finite numbers; the example columns hold nothing else.\<close>

fun number_lt :: "jsval \<Rightarrow> jsval \<Rightarrow> bool" where
  "number_lt (VNum (Fin x)) (VNum (Fin y)) = (x < y)"
| "number_lt a b = False"

text \<open>\<^verbatim>\<open>[{a: 1}, {a: null}, {a: 3}]\<close>\<close>

definition scenario_rows :: "DataRow list" where
  "scenario_rows = [[(''a'', VNum (Fin 1))], [(''a'', VNull)], [(''a'', VNum (Fin 3))]]"

text \<open>\<^verbatim>\<open>[{v: 'x'}, {v: 'y'}]\<close>: a column without a number.\<close>

definition label_rows :: "DataRow list" where
  "label_rows = [[(''v'', VStr ''x'')], [(''v'', VStr ''y'')]]"

text \<open>\<^verbatim>\<open>[{v: 0}, {v: 50}, {v: 100}]\<close>\<close>

definition percent_rows :: "DataRow list" where
  "percent_rows = [[(''v'', VNum (Fin 0))], [(''v'', VNum (Fin 50))], [(''v'', VNum (Fin 100))]]"

text \<open>\<^verbatim>\<open>[{a: 3}, {a: null}, {a: 1}, {b: true}, {a: 2}]\<close>: the fourth row has no \<^verbatim>\<open>a\<close>.\<close>

definition mixed_rows :: "DataRow list" where
  "mixed_rows =
     [[(''a'', VNum (Fin 3))], [(''a'', VNull)], [(''a'', VNum (Fin 1))],
      [(''b'', VBool True)], [(''a'', VNum (Fin 2))]]"

text \<open>
  \<^verbatim>\<open>[{g: 'x', n: 1}, {g: 'y', n: 'seven'}, {g: 'x', n: 4}, {g: 'y', n: null}]\<close>:
  the group \<^verbatim>\<open>y\<close> has no number in \<^verbatim>\<open>n\<close>.
\<close>

definition sales_rows :: "DataRow list" where
  "sales_rows =
     [[(''g'', VStr ''x''), (''n'', VNum (Fin 1))],
      [(''g'', VStr ''y''), (''n'', VStr ''seven'')],
      [(''g'', VStr ''x''), (''n'', VNum (Fin 4))],
      [(''g'', VStr ''y''), (''n'', VNull)]]"

definition all_aggregations :: "(string \<times> AggSpec) list" where
  "all_aggregations =
     [(''total'', \<lparr>agg_column = ''n'', agg_fn = AggSum\<rparr>),
      (''average'', \<lparr>agg_column = ''n'', agg_fn = AggAvg\<rparr>),
      (''size'', \<lparr>agg_column = ''n'', agg_fn = AggCount\<rparr>),
      (''low'', \<lparr>agg_column = ''n'', agg_fn = AggMin\<rparr>),
      (''high'', \<lparr>agg_column = ''n'', agg_fn = AggMax\<rparr>)]"

text \<open>
  \<^verbatim>\<open>[{a: 1, b: 'x'}, {a: null, b: 'y'}, {a: 3, b: null}, {a: 4, b: 'z'}]\<close>
\<close>

definition nullable_rows :: "DataRow list" where
  "nullable_rows =
     [[(''a'', VNum (Fin 1)), (''b'', VStr ''x'')],
      [(''a'', VNull), (''b'', VStr ''y'')],
      [(''a'', VNum (Fin 3)), (''b'', VNull)],
      [(''a'', VNum (Fin 4)), (''b'', VStr ''z'')]]"

text \<open>
  \<^verbatim>\<open>[{a: 3}, {a: NaN}, {a: 1}, {a: 2}]\<close>: \<^verbatim>\<open>NaN\<close> compares above both of its
  neighbours, and the comparator is not consistent.
\<close>

definition unordered_rows :: "DataRow list" where
  "unordered_rows =
     [[(''a'', VNum (Fin 3))], [(''a'', VNum NaN)], [(''a'', VNum (Fin 1))],
      [(''a'', VNum (Fin 2))]]"

section \<open>Properties of the pipeline runner\<close>

lemma attempt_loop_all_throw:
  "all_attempts_throw f (currentInput st) ctx k (run_env st) \<Longrightarrow> 0 < k \<Longrightarrow>
   \<exists>step' e' msg.
     attempt_loop cfg cb f ctx k (step, st) =
       (step', st\<lparr>run_env := e',
                  pipelineStatus := (if continueOnError cfg then RunPartial else RunFailed),
                  pipelineError := Some msg\<rparr>)
     \<and> step_status step' = StepFailed"
proof (induction k arbitrary: step st)
  case 0
  then show ?case by simp
next
  case (Suc k)
  obtain r e1 where fe: "f (currentInput st) ctx (run_env st) = (r, e1)"
    by (cases "f (currentInput st) ctx (run_env st)")
  with Suc.prems obtain err where r: "r = Inl err"
    and rest: "all_attempts_throw f (currentInput st) ctx k e1"
    by (cases r) auto
  let ?st1 = "st\<lparr>run_env := e1\<rparr>"
  show ?case
  proof (cases "k = 0")
    case True
    then show ?thesis using fe r
      by (simp add: on_catch_def) (metis (full_types))
  next
    case False
    have unfold: "attempt_loop cfg cb f ctx (Suc k) (step, st)
                    = attempt_loop cfg cb f ctx k (step, ?st1)"
      using fe r False by (simp add: on_catch_def)
    have "all_attempts_throw f (currentInput ?st1) ctx k (run_env ?st1)"
      using rest by simp
    from Suc.IH[OF this, of step] False
    obtain step' e' msg where
      "attempt_loop cfg cb f ctx k (step, ?st1) =
       (step', ?st1\<lparr>run_env := e',
                  pipelineStatus := (if continueOnError cfg then RunPartial else RunFailed),
                  pipelineError := Some msg\<rparr>)" "step_status step' = StepFailed"
      by auto
    then show ?thesis unfolding unfold by auto
  qed
qed

text \<open>With continue-on-error the loop has no \<^verbatim>\<open>break\<close>, so it runs a prefix and then the rest.\<close>

lemma run_steps_append:
  "continueOnError (config p) \<Longrightarrow>
   run_steps p cb i (xs @ ys) st = run_steps p cb (i + length xs) ys (run_steps p cb i xs st)"
proof (induction xs arbitrary: i st)
  case Nil
  then show ?case by simp
next
  case (Cons x xs)
  show ?case
  proof (cases "stepFns p x")
    case None
    then show ?thesis using Cons by (simp add: Let_def)
  next
    case (Some f)
    then show ?thesis using Cons by (simp add: Let_def split: prod.splits)
  qed
qed

lemma max_attempts_pos: "0 < max_attempts cfg"
  by (simp add: max_attempts_def)

subsection \<open>Runs in which every step is registered, and halting\<close>

lemma attempt_loop_outcome:
  "0 < k \<Longrightarrow> step_status step = StepRunning \<Longrightarrow>
   attempt_loop cfg cb f ctx k (step, st) = (step', st') \<Longrightarrow>
   stepResults st' = stepResults st \<and>
   ((step_status step' = StepCompleted \<and> pipelineStatus st' = pipelineStatus st) \<or>
    (step_status step' = StepFailed \<and>
     pipelineStatus st' = (if continueOnError cfg then RunPartial else RunFailed)))"
proof (induction k arbitrary: step st)
  case 0
  then show ?case by simp
next
  case (Suc k)
  obtain r e1 where fe: "f (currentInput st) ctx (run_env st) = (r, e1)"
    by (cases "f (currentInput st) ctx (run_env st)")
  show ?case
  proof (cases r)
    case (Inr v)
    show ?thesis
    proof (cases cb)
      case None
      with Suc.prems fe Inr show ?thesis by (auto simp: Let_def)
    next
      case (Some g)
      let ?step1 = "step\<lparr>step_status := StepCompleted, step_completedAt := Some (clock e1)\<rparr>"
      obtain t e2 where ge: "g ?step1 e1 = (t, e2)" by (cases "g ?step1 e1")
      with Suc.prems fe Inr Some show ?thesis
        by (cases t) (auto simp: Let_def on_catch_def split: if_splits)
    qed
  next
    case (Inl err)
    show ?thesis
    proof (cases "k = 0")
      case True
      with Suc.prems fe Inl show ?thesis by (auto simp: on_catch_def)
    next
      case False
      have "attempt_loop cfg cb f ctx (Suc k) (step, st)
              = attempt_loop cfg cb f ctx k (step, st\<lparr>run_env := e1\<rparr>)"
        using fe Inl False by (simp add: on_catch_def)
      with Suc.prems have "attempt_loop cfg cb f ctx k (step, st\<lparr>run_env := e1\<rparr>) = (step', st')"
        by simp
      from Suc.IH[OF _ Suc.prems(2) this] False show ?thesis by simp
    qed
  qed
qed

lemma mark_skipped_status: "list_all (\<lambda>s. step_status s = StepSkipped \<and> step_startedAt s = None \<and> step_completedAt s = None) (mark_skipped j names)"
  by (induction names arbitrary: j) (auto simp: skipped_step_def)

lemma mark_skipped_names: "map step_name (mark_skipped j names) = names"
  by (induction names arbitrary: j) (auto simp: skipped_step_def)

lemma run_invariant_step:
  assumes inv: "run_invariant cfg st"
    and res: "stepResults st' = stepResults st"
    and out: "(step_status step' = StepCompleted \<and> pipelineStatus st' = pipelineStatus st) \<or>
              (step_status step' = StepFailed \<and>
               pipelineStatus st' = (if continueOnError cfg then RunPartial else RunFailed))"
  shows "run_invariant cfg (st'\<lparr>stepResults := stepResults st' @ [step']\<rparr>)"
  using assms by (auto simp: run_invariant_def)

lemma run_invariant_skipped:
  "run_invariant cfg st \<Longrightarrow> list_ex (\<lambda>s. step_status s = StepFailed) (stepResults st) \<Longrightarrow>
   run_invariant cfg (st\<lparr>stepResults := stepResults st @ mark_skipped j names\<rparr>)"
  by (auto simp: run_invariant_def list_all_iff list_ex_iff)

lemma run_steps_invariant:
  "list_all (\<lambda>n. stepFns p n \<noteq> None) names \<Longrightarrow> run_invariant (config p) st \<Longrightarrow>
   run_invariant (config p) (run_steps p cb i names st)"
proof (induction names arbitrary: i st)
  case Nil
  then show ?case by simp
next
  case (Cons n names)
  then obtain f where f: "stepFns p n = Some f" by auto
  let ?step0 = "\<lparr>step_id = ''step-'' @ string_of_index i, step_name = n,
                        step_status = StepRunning, step_error = None,
                        step_startedAt = Some (clock (run_env st)),
                        step_completedAt = None\<rparr>"
  obtain step' st' where al: "attempt_loop (config p) cb f (make_context (config p) i n)
       (max_attempts (config p)) (?step0, st) = (step', st')"
    by (cases "attempt_loop (config p) cb f (make_context (config p) i n)
       (max_attempts (config p)) (?step0, st)")
  from attempt_loop_outcome[OF max_attempts_pos _ al]
  have res: "stepResults st' = stepResults st"
    and out: "(step_status step' = StepCompleted \<and> pipelineStatus st' = pipelineStatus st) \<or>
              (step_status step' = StepFailed \<and>
               pipelineStatus st' = (if continueOnError (config p) then RunPartial else RunFailed))"
    by simp_all
  let ?st2 = "st'\<lparr>stepResults := stepResults st' @ [step']\<rparr>"
  have inv2: "run_invariant (config p) ?st2"
    using run_invariant_step[OF Cons.prems(2) res out] .
  show ?case
  proof (cases "step_status step' = StepFailed \<and> \<not> continueOnError (config p)")
    case True
    then have "list_ex (\<lambda>s. step_status s = StepFailed) (stepResults ?st2)" by simp
    from run_invariant_skipped[OF inv2 this, of "Suc i" names] True f al
    show ?thesis by (simp add: Let_def)
  next
    case False
    have "run_steps p cb i (n # names) st = run_steps p cb (Suc i) names ?st2"
      using False f al by (auto simp: Let_def)
    moreover have "run_invariant (config p) (run_steps p cb (Suc i) names ?st2)"
      using Cons.IH[OF _ inv2] Cons.prems(1) by simp
    ultimately show ?thesis by simp
  qed
qed

lemma status_when_all_registered:
  assumes "list_all (\<lambda>n. stepFns p n \<noteq> None) (config_steps (config p))"
    and "r = run_result (fst (executePipeline p input cb e))"
  shows "(result_status r = RunCompleted \<longleftrightarrow>
            list_all (\<lambda>s. step_status s = StepCompleted) (result_steps r)) \<and>
         (result_status r = RunFailed \<longleftrightarrow>
            list_ex (\<lambda>s. step_status s = StepFailed) (result_steps r) \<and>
            \<not> continueOnError (config p)) \<and>
         (result_status r = RunPartial \<longleftrightarrow>
            list_ex (\<lambda>s. step_status s = StepFailed) (result_steps r) \<and>
            continueOnError (config p))"
proof -
  have "run_invariant (config p) (initial_state input e)"
    by (simp add: run_invariant_def initial_state_def)
  from run_steps_invariant[OF assms(1) this, of cb 0]
  have "run_invariant (config p)
          (run_steps p cb 0 (config_steps (config p)) (initial_state input e))" .
  then show ?thesis
    unfolding assms(2) run_invariant_def
    by (auto simp: executePipeline_def Let_def list_all_iff list_ex_iff split: if_splits)
qed

lemma halts_on_throw:
  assumes "\<not> continueOnError (config p)" and "stepFns p stepName = Some f"
    and "all_attempts_throw f (currentInput st) (make_context (config p) i stepName)
           (max_attempts (config p)) (run_env st)"
  shows "\<exists>failedStep e1 msg.
           step_status failedStep = StepFailed \<and>
           run_steps p cb i (stepName # rest) st =
             st\<lparr>run_env := e1, pipelineStatus := RunFailed, pipelineError := Some msg,
                stepResults := stepResults st @ failedStep # mark_skipped (Suc i) rest\<rparr>"
proof -
  let ?step0 = "\<lparr>step_id = ''step-'' @ string_of_index i, step_name = stepName,
                        step_status = StepRunning, step_error = None,
                        step_startedAt = Some (clock (run_env st)),
                        step_completedAt = None\<rparr>"
  from attempt_loop_all_throw[OF assms(3) max_attempts_pos, of "config p" cb ?step0] assms(1)
  obtain step' e' msg where
    al: "attempt_loop (config p) cb f (make_context (config p) i stepName)
           (max_attempts (config p)) (?step0, st) =
       (step', st\<lparr>run_env := e', pipelineStatus := RunFailed, pipelineError := Some msg\<rparr>)"
    and failed: "step_status step' = StepFailed"
    by auto
  have "run_steps p cb i (stepName # rest) st =
          st\<lparr>run_env := e', pipelineStatus := RunFailed, pipelineError := Some msg,
             stepResults := stepResults st @ step' # mark_skipped (Suc i) rest\<rparr>"
    using assms(1,2) al failed by (simp add: Let_def)
  with failed show ?thesis by blast
qed

lemma unregistered_step_halts_without_marking:
  assumes "\<not> continueOnError (config p)" and "stepFns p stepName = None"
  shows "currentInput (run_steps p cb i (stepName # rest) st) = currentInput st \<and>
         pipelineStatus (run_steps p cb i (stepName # rest) st) = RunFailed \<and>
         length (stepResults (run_steps p cb i (stepName # rest) st)) = Suc (length (stepResults st))"
  using assms by (simp add: Let_def)

lemma unregistered_step_status_failed:
  assumes "stepFns p stepName = None"
  shows "pipelineStatus (run_steps p cb i [stepName] st) = RunFailed"
  using assms by (simp add: Let_def)

subsection \<open>Status, halting and continuing\<close>

lemmas example_pipeline_defs =
  throwing_pipeline_def missing_pipeline_def example_config_def env0_def
  ok_step_def fail_step_def after_step_def executePipeline_def initial_state_def
  max_attempts_def make_context_def on_catch_def skipped_step_def Let_def

text \<open>
  C1 (the status of a run). The claim asks for status \<^verbatim>\<open>partial\<close> whenever a step failed,
  an unregistered one included, while continue-on-error was true and the run went on. On
  the steps \<^verbatim>\<open>[missing, after]\<close> with continue-on-error and only \<^verbatim>\<open>after\<close>
  registered, \<^verbatim>\<open>executePipeline\<close> records \<^verbatim>\<open>missing\<close> as failed, goes on to
  complete \<^verbatim>\<open>after\<close> (the output is 10), and reports status \<^verbatim>\<open>failed\<close>: the
  branch for an unregistered step assigns \<^verbatim>\<open>'failed'\<close> whatever the flag is, where
  the \<^verbatim>\<open>catch\<close> block of a throwing step assigns \<^verbatim>\<open>'partial'\<close>, as the last
  conjunct shows on \<^verbatim>\<open>[ok, fail, after]\<close>.
\<close>

theorem C1_unregistered_step_status_failed_under_continue:
  "continueOnError (config (missing_pipeline True)) = True \<and>
   map step_status
     (result_steps (run_result (fst (executePipeline (missing_pipeline True) 0 None env0))))
     = [StepFailed, StepCompleted] \<and>
   run_output (fst (executePipeline (missing_pipeline True) 0 None env0)) = 10 \<and>
   result_status (run_result (fst (executePipeline (missing_pipeline True) 0 None env0)))
     = RunFailed \<and>
   result_status (run_result (fst (executePipeline (throwing_pipeline True) 0 None env0)))
     = RunPartial"
  by (simp add: example_pipeline_defs)

text \<open>
  C2 (halting on a failure). The claim asks that, without continue-on-error, every step
  after the failing one is appended with status \<^verbatim>\<open>skipped\<close>, also when the failing
  step is an unregistered one. On the steps \<^verbatim>\<open>[missing, after]\<close> the run halts at
  \<^verbatim>\<open>missing\<close> with the input 0 as its output, and the result lists that one step only:
  \<^verbatim>\<open>after\<close> is not appended. The branch for an unregistered step leaves the loop
  before the code that marks the remaining steps; after a throwing step that code runs,
  as the last conjunct shows on \<^verbatim>\<open>[ok, fail, after]\<close>.
\<close>

theorem C2_unregistered_step_leaves_rest_unlisted:
  "continueOnError (config (missing_pipeline False)) = False \<and>
   config_steps (config (missing_pipeline False)) = [''missing'', ''after''] \<and>
   map step_name
     (result_steps (run_result (fst (executePipeline (missing_pipeline False) 0 None env0))))
     = [''missing''] \<and>
   map step_status
     (result_steps (run_result (fst (executePipeline (missing_pipeline False) 0 None env0))))
     = [StepFailed] \<and>
   run_output (fst (executePipeline (missing_pipeline False) 0 None env0)) = 0 \<and>
   map step_status
     (result_steps (run_result (fst (executePipeline (throwing_pipeline False) 0 None env0))))
     = [StepCompleted, StepFailed, StepSkipped]"
  by (simp add: example_pipeline_defs)

text \<open>
  C4 (a failed step is a no-op under continue-on-error). Let the step list be
  \<open>pre @ stepName # post\<close>, let \<open>st\<close> be the state of the loop after the steps \<open>pre\<close>,
  and let the function registered for \<open>stepName\<close> throw on each of its
  \<^verbatim>\<open>maxAttempts\<close> attempts on \<^verbatim>\<open>currentInput\<close>. Then the run records that step
  as failed, sets the status to \<^verbatim>\<open>partial\<close>, and continues with the steps \<open>post\<close>
  from a state whose \<^verbatim>\<open>currentInput\<close> is that of \<open>st\<close>: the output of the whole
  run is what the remaining steps make of the failed step's input.
\<close>

theorem C4_failed_step_keeps_running_value:
  assumes coe: "continueOnError (config p)"
    and steps: "config_steps (config p) = pre @ stepName # post"
    and fn: "stepFns p stepName = Some f"
    and st: "st = run_steps p cb 0 pre (initial_state input e)"
    and throws: "all_attempts_throw f (currentInput st)
                   (make_context (config p) (length pre) stepName)
                   (max_attempts (config p)) (run_env st)"
  shows "\<exists>failedStep e1 msg.
           step_status failedStep = StepFailed \<and>
           run_output (fst (executePipeline p input cb e)) =
             currentInput (run_steps p cb (Suc (length pre)) post
               (st\<lparr>run_env := e1, pipelineStatus := RunPartial, pipelineError := Some msg,
                    stepResults := stepResults st @ [failedStep]\<rparr>))"
proof -
  let ?ctx = "make_context (config p) (length pre) stepName"
  let ?step0 = "\<lparr>step_id = ''step-'' @ string_of_index (length pre), step_name = stepName,
                        step_status = StepRunning, step_error = None,
                        step_startedAt = Some (clock (run_env st)),
                        step_completedAt = None\<rparr>"
  from attempt_loop_all_throw[OF throws max_attempts_pos, of "config p" cb ?step0] coe
  obtain step' e' msg where
    al: "attempt_loop (config p) cb f ?ctx (max_attempts (config p)) (?step0, st) =
       (step', st\<lparr>run_env := e', pipelineStatus := RunPartial, pipelineError := Some msg\<rparr>)"
    and failed: "step_status step' = StepFailed"
    by auto
  have one: "run_steps p cb (length pre) (stepName # post) st =
        run_steps p cb (Suc (length pre)) post
          (st\<lparr>run_env := e', pipelineStatus := RunPartial, pipelineError := Some msg,
               stepResults := stepResults st @ [step']\<rparr>)"
    using fn al coe by (simp add: Let_def)
  have "run_steps p cb 0 (pre @ stepName # post) (initial_state input e) =
        run_steps p cb (length pre) (stepName # post) st"
    using run_steps_append[OF coe, of cb 0 pre] st by simp
  with one steps have "run_output (fst (executePipeline p input cb e)) =
     currentInput (run_steps p cb (Suc (length pre)) post
          (st\<lparr>run_env := e', pipelineStatus := RunPartial, pipelineError := Some msg,
               stepResults := stepResults st @ [step']\<rparr>))"
    by (simp add: executePipeline_def Let_def)
  with failed show ?thesis by blast
qed

theorem C4_failed_step_keeps_running_value_witness:
  "continueOnError (config (throwing_pipeline True)) \<and>
   config_steps (config (throwing_pipeline True)) = [''ok''] @ ''fail'' # [''after''] \<and>
   stepFns (throwing_pipeline True) ''fail'' = Some fail_step \<and>
   all_attempts_throw fail_step
     (currentInput (run_steps (throwing_pipeline True) None 0 [''ok''] (initial_state 0 env0)))
     (make_context (config (throwing_pipeline True)) (length [''ok'']) ''fail'')
     (max_attempts (config (throwing_pipeline True)))
     (run_env (run_steps (throwing_pipeline True) None 0 [''ok''] (initial_state 0 env0))) \<and>
   currentInput (run_steps (throwing_pipeline True) None 0 [''ok''] (initial_state 0 env0)) = 1 \<and>
   run_output (fst (executePipeline (throwing_pipeline True) 0 None env0)) = 11"
proof -
  let ?p = "throwing_pipeline True"
  let ?st = "run_steps ?p None 0 [''ok''] (initial_state 0 env0)"
  have h1: "continueOnError (config ?p)" by (simp add: example_pipeline_defs)
  have h2: "config_steps (config ?p) = [''ok''] @ ''fail'' # [''after'']"
    by (simp add: example_pipeline_defs)
  have h3: "stepFns ?p ''fail'' = Some fail_step" by (simp add: example_pipeline_defs)
  have h4: "all_attempts_throw fail_step (currentInput ?st)
     (make_context (config ?p) (length [''ok'']) ''fail'') (max_attempts (config ?p)) (run_env ?st)"
    by (simp add: example_pipeline_defs)
  have v: "currentInput ?st = 1" by (simp add: example_pipeline_defs)
  from C4_failed_step_keeps_running_value[OF h1 h2 h3 refl h4]
  obtain failedStep e1 msg where
    "run_output (fst (executePipeline ?p 0 None env0)) =
             currentInput (run_steps ?p None (Suc (length [''ok''])) [''after'']
               (?st\<lparr>run_env := e1, pipelineStatus := RunPartial, pipelineError := Some msg,
                    stepResults := stepResults ?st @ [failedStep]\<rparr>))" by blast
  then have "run_output (fst (executePipeline ?p 0 None env0)) = 11"
    using v by (simp add: throwing_pipeline_def after_step_def example_config_def
                  max_attempts_def Let_def)
  with h1 h2 h3 h4 v show ?thesis by blast
qed

section \<open>Properties of the notebook runner\<close>

lemma trim_blank: "(\<forall>c\<in>set s. js_whitespace c) \<Longrightarrow> trim s = []"
proof -
  assume "\<forall>c\<in>set s. js_whitespace c"
  then have d: "dropWhile js_whitespace s = []" by simp
  show ?thesis unfolding trim_def d by simp
qed

lemma trim_not_blank: "\<exists>c\<in>set s. \<not> js_whitespace c \<Longrightarrow> trim s \<noteq> []"
proof -
  assume "\<exists>c\<in>set s. \<not> js_whitespace c"
  then have ne: "dropWhile js_whitespace s \<noteq> []" by (simp add: dropWhile_eq_Nil_conv)
  then have "\<not> js_whitespace (hd (dropWhile js_whitespace s))" by (rule hd_dropWhile)
  moreover have "hd (dropWhile js_whitespace s) \<in> set (rev (dropWhile js_whitespace s))"
    using ne by simp
  ultimately have "dropWhile js_whitespace (rev (dropWhile js_whitespace s)) \<noteq> []"
    unfolding dropWhile_eq_Nil_conv by blast
  then show ?thesis by (simp only: trim_def rev_is_Nil_conv not_False_eq_True)
qed

text \<open>
  C8 (\<^verbatim>\<open>executeCell\<close>). For every cell, executor and state: if the cell is not a code
  cell, or every character of its source is white space (the empty source included),
  the result is the cell with status \<^verbatim>\<open>skipped\<close> and the state is the one passed in,
  whatever the executor is, so the executor was not invoked. If the cell is a code cell
  with a character that is not white space and the executor, called on the source with
  the incremented execution counter, throws \<open>err\<close>, the returned cell has status
  \<^verbatim>\<open>error\<close> and exactly one output, of type \<^verbatim>\<open>error\<close>, whose data is the
  message of \<open>err\<close>.
\<close>

theorem C8_executeCell_skips_or_reports_error:
  "(cell_type cell \<noteq> CodeCell \<or> (\<forall>c\<in>set (cell_source cell). js_whitespace c) \<longrightarrow>
      executeCell cell executor s = (cell\<lparr>cell_status := CellSkipped\<rparr>, s))
   \<and>
   (cell_type cell = CodeCell \<and> (\<exists>c\<in>set (cell_source cell). \<not> js_whitespace c) \<and>
    fst (executor (cell_source cell)
          (s\<lparr>exec_context :=
               (exec_context s)\<lparr>executionCount := executionCount (exec_context s) + 1\<rparr>\<rparr>))
      = Inl err \<longrightarrow>
      cell_status (fst (executeCell cell executor s)) = CellError \<and>
      cell_outputs (fst (executeCell cell executor s)) =
        [\<lparr>output_type = OutError, output_data = VStr (error_message err),
          output_mimeType = None\<rparr>])"
proof (intro conjI impI)
  assume "cell_type cell \<noteq> CodeCell \<or> (\<forall>c\<in>set (cell_source cell). js_whitespace c)"
  then show "executeCell cell executor s = (cell\<lparr>cell_status := CellSkipped\<rparr>, s)"
    by (auto simp: executeCell_def trim_blank)
next
  let ?s1 = "s\<lparr>exec_context :=
               (exec_context s)\<lparr>executionCount := executionCount (exec_context s) + 1\<rparr>\<rparr>"
  assume a: "cell_type cell = CodeCell \<and> (\<exists>c\<in>set (cell_source cell). \<not> js_whitespace c) \<and>
    fst (executor (cell_source cell) ?s1) = Inl err"
  then have nb: "trim (cell_source cell) \<noteq> []" by (simp add: trim_not_blank)
  obtain s2 where ex: "executor (cell_source cell) ?s1 = (Inl err, s2)"
    using a by (cases "executor (cell_source cell) ?s1") auto
  have res: "executeCell cell executor s =
          (markError (markRunning cell (executionCount (exec_context ?s1))) (error_message err), s2)"
    using a nb ex by (simp add: executeCell_def Let_def)
  show "cell_status (fst (executeCell cell executor s)) = CellError"
    by (simp add: res markError_def)
  show "cell_outputs (fst (executeCell cell executor s)) =
        [\<lparr>output_type = OutError, output_data = VStr (error_message err),
          output_mimeType = None\<rparr>]"
    by (simp add: res markError_def createOutput_def)
qed

theorem C8_executeCell_skips_or_reports_error_witness:
  "executeCell (example_cell CodeCell [CHR 0x20, CHR 0x0A, CHR 0x09]) throwing_spy exec_state0
     = ((example_cell CodeCell [CHR 0x20, CHR 0x0A, CHR 0x09])\<lparr>cell_status := CellSkipped\<rparr>,
        exec_state0) \<and>
   executor_world exec_state0 = 0 \<and>
   executeCell (example_cell MarkdownCell ''x = 1'') throwing_spy exec_state0
     = ((example_cell MarkdownCell ''x = 1'')\<lparr>cell_status := CellSkipped\<rparr>, exec_state0) \<and>
   cell_status (fst (executeCell (example_cell CodeCell ''x = 1'') throwing_spy exec_state0))
     = CellError \<and>
   cell_outputs (fst (executeCell (example_cell CodeCell ''x = 1'') throwing_spy exec_state0))
     = [\<lparr>output_type = OutError, output_data = VStr ''kaboom'', output_mimeType = None\<rparr>]"
proof -
  have blank: "\<forall>c\<in>set (cell_source (example_cell CodeCell [CHR 0x20, CHR 0x0A, CHR 0x09])).
                 js_whitespace c"
    by (simp add: example_cell_def js_whitespace_def)
  have md: "cell_type (example_cell MarkdownCell ''x = 1'') \<noteq> CodeCell"
    by (simp add: example_cell_def)
  have code: "cell_type (example_cell CodeCell ''x = 1'') = CodeCell \<and>
      (\<exists>c\<in>set (cell_source (example_cell CodeCell ''x = 1'')). \<not> js_whitespace c) \<and>
      fst (throwing_spy (cell_source (example_cell CodeCell ''x = 1''))
          (exec_state0\<lparr>exec_context :=
               (exec_context exec_state0)\<lparr>executionCount :=
                  executionCount (exec_context exec_state0) + 1\<rparr>\<rparr>))
       = Inl (ErrorObject ''kaboom'')"
    by (simp add: example_cell_def js_whitespace_def throwing_spy_def)
  have w: "executor_world exec_state0 = 0" by (simp add: exec_state0_def)
  from C8_executeCell_skips_or_reports_error
         [of "example_cell CodeCell [CHR 0x20, CHR 0x0A, CHR 0x09]" throwing_spy exec_state0]
       C8_executeCell_skips_or_reports_error
         [of "example_cell MarkdownCell ''x = 1''" throwing_spy exec_state0]
       C8_executeCell_skips_or_reports_error
         [of "example_cell CodeCell ''x = 1''" throwing_spy exec_state0 "ErrorObject ''kaboom''"]
       blank md code w
  show ?thesis by simp
qed

section \<open>Properties of datasets, statistics and transforms\<close>

subsection \<open>The store\<close>

lemma array_at_alloc [simp]: "array_at (snd (alloc xs s)) (fst (alloc xs s)) = xs"
  by (simp add: alloc_def array_at_def)

lemma rows_createDataset [simp]: "rows (createDataset r name desc s) = r"
  by (simp add: createDataset_def Let_def)

lemma array_at_dataset_of_rows:
  "array_at (snd (dataset_of_rows rs name s)) (rows (fst (dataset_of_rows rs name s))) = rs"
  by (simp add: dataset_of_rows_def split_beta)

subsection \<open>\<^verbatim>\<open>describeColumn\<close>\<close>

lemma partition3:
  "length (filter P xs) + length (filter Q xs) + length (filter (\<lambda>v. \<not> Q v \<and> \<not> P v) xs) = length xs"
  if "\<And>v. P v \<Longrightarrow> \<not> Q v"
  using that by (induction xs) auto

lemma finite_not_nullish: "is_number v \<and> \<not> isNaN v \<Longrightarrow> \<not> is_nullish v"
  by (cases v) auto

text \<open>
  C6 (\<^verbatim>\<open>describeColumn\<close> counts). For every store, dataset and column:
  \<^verbatim>\<open>count\<close> is the number of values of the column that are numbers other than
  \<^verbatim>\<open>NaN\<close>; \<^verbatim>\<open>nullCount\<close> is the number of values that are \<^verbatim>\<open>null\<close> or
  \<^verbatim>\<open>undefined\<close>; and the two together with the number of the remaining values (not
  null, and not such a number) make up the number of rows, so a value of the third kind
  is counted in neither. On the rows \<^verbatim>\<open>[{a: 1}, {a: null}, {a: 3}]\<close> the statistics
  of \<^verbatim>\<open>a\<close> are count 2, mean 2, min 1, max 3 and nullCount 1.
\<close>

theorem C6_describeColumn_counts:
  "stats_count (describeColumn s d col) =
     length (filter (\<lambda>v. is_number v \<and> \<not> isNaN v)
               (map (\<lambda>r. get_prop r col) (array_at s (rows d)))) \<and>
   stats_nullCount (describeColumn s d col) =
     length (filter is_nullish (map (\<lambda>r. get_prop r col) (array_at s (rows d)))) \<and>
   stats_count (describeColumn s d col) + stats_nullCount (describeColumn s d col) +
     length (filter (\<lambda>v. \<not> is_nullish v \<and> \<not> (is_number v \<and> \<not> isNaN v))
               (map (\<lambda>r. get_prop r col) (array_at s (rows d))))
     = length (array_at s (rows d)) \<and>
   stats_count (describeColumn (snd (dataset_of_rows scenario_rows ''dataset'' store0))
                  (fst (dataset_of_rows scenario_rows ''dataset'' store0)) ''a'') = 2 \<and>
   stats_mean (describeColumn (snd (dataset_of_rows scenario_rows ''dataset'' store0))
                  (fst (dataset_of_rows scenario_rows ''dataset'' store0)) ''a'') = 2 \<and>
   stats_min (describeColumn (snd (dataset_of_rows scenario_rows ''dataset'' store0))
                  (fst (dataset_of_rows scenario_rows ''dataset'' store0)) ''a'') = 1 \<and>
   stats_max (describeColumn (snd (dataset_of_rows scenario_rows ''dataset'' store0))
                  (fst (dataset_of_rows scenario_rows ''dataset'' store0)) ''a'') = 3 \<and>
   stats_nullCount (describeColumn (snd (dataset_of_rows scenario_rows ''dataset'' store0))
                  (fst (dataset_of_rows scenario_rows ''dataset'' store0)) ''a'') = 1"
proof -
  let ?col = "map (\<lambda>r. get_prop r col) (array_at s (rows d))"
  have c: "stats_count (describeColumn s d col) =
     length (filter (\<lambda>v. is_number v \<and> \<not> isNaN v) ?col)"
    by (simp add: describeColumn_def getNumericColumn_def Let_def)
  have n: "stats_nullCount (describeColumn s d col) = length (filter is_nullish ?col)"
    by (simp add: describeColumn_def Let_def)
  have p: "length (filter (\<lambda>v. is_number v \<and> \<not> isNaN v) ?col) + length (filter is_nullish ?col) +
     length (filter (\<lambda>v. \<not> is_nullish v \<and> \<not> (is_number v \<and> \<not> isNaN v)) ?col) = length ?col"
    by (rule partition3) (rule finite_not_nullish)
  have sc: "array_at (snd (dataset_of_rows scenario_rows ''dataset'' store0))
              (rows (fst (dataset_of_rows scenario_rows ''dataset'' store0))) = scenario_rows"
    by (simp add: dataset_of_rows_def split_beta Let_def)
  have vals: "getNumericColumn (snd (dataset_of_rows scenario_rows ''dataset'' store0))
                  (fst (dataset_of_rows scenario_rows ''dataset'' store0)) ''a'' = [1, 3]"
    unfolding getNumericColumn_def sc by (simp add: scenario_rows_def get_prop_def)
  have all: "map (\<lambda>r. get_prop r ''a'') scenario_rows = [VNum (Fin 1), VNull, VNum (Fin 3)]"
    by (simp add: scenario_rows_def get_prop_def)
  have scen: "describeColumn (snd (dataset_of_rows scenario_rows ''dataset'' store0))
                  (fst (dataset_of_rows scenario_rows ''dataset'' store0)) ''a'' =
     \<lparr>stats_column = ''a'', stats_count = 2, stats_mean = 2, stats_median = median [1, 3],
      stats_min = 1, stats_max = 3, stats_stddev = stddev [1, 3],
      stats_variance = variance [1, 3], stats_q25 = quantile [1, 3] 0.25,
      stats_q75 = quantile [1, 3] 0.75, stats_nullCount = 1\<rparr>"
    unfolding describeColumn_def vals sc all by (simp add: mean_def sum_values_def Let_def)
  show ?thesis
    using c n p unfolding scen by simp
qed

text \<open>
  C10 (\<^verbatim>\<open>min\<close> and \<^verbatim>\<open>max\<close> of a column without numbers). When
  \<^verbatim>\<open>getNumericColumn\<close> finds no value in the column, \<^verbatim>\<open>describeColumn\<close>
  reports \<^verbatim>\<open>min\<close> 0 and \<^verbatim>\<open>max\<close> 0 (and count 0), whereas over rows without a
  number in the column the \<^verbatim>\<open>min\<close> and \<^verbatim>\<open>max\<close> of \<^verbatim>\<open>aggregate\<close> are
  \<^verbatim>\<open>null\<close>.
\<close>

theorem C10_describeColumn_min_max_zero:
  assumes "getNumericColumn s d col = []"
  shows "stats_min (describeColumn s d col) = 0 \<and> stats_max (describeColumn s d col) = 0 \<and>
         stats_count (describeColumn s d col) = 0 \<and>
         (filter is_number (map (\<lambda>r. get_prop r col) rs) = [] \<longrightarrow>
            aggregate_value rs \<lparr>agg_column = col, agg_fn = AggMin\<rparr> = VNull \<and>
            aggregate_value rs \<lparr>agg_column = col, agg_fn = AggMax\<rparr> = VNull)"
  using assms by (simp add: describeColumn_def aggregate_value_def Let_def)

theorem C10_describeColumn_min_max_zero_witness:
  "getNumericColumn (snd (dataset_of_rows label_rows ''labels'' store0))
     (fst (dataset_of_rows label_rows ''labels'' store0)) ''v'' = [] \<and>
   stats_min (describeColumn (snd (dataset_of_rows label_rows ''labels'' store0))
                (fst (dataset_of_rows label_rows ''labels'' store0)) ''v'') = 0 \<and>
   stats_max (describeColumn (snd (dataset_of_rows label_rows ''labels'' store0))
                (fst (dataset_of_rows label_rows ''labels'' store0)) ''v'') = 0 \<and>
   filter is_number (map (\<lambda>r. get_prop r ''v'') label_rows) = [] \<and>
   aggregate_value label_rows \<lparr>agg_column = ''v'', agg_fn = AggMin\<rparr> = VNull \<and>
   aggregate_value label_rows \<lparr>agg_column = ''v'', agg_fn = AggMax\<rparr> = VNull"
proof -
  let ?ds = "dataset_of_rows label_rows ''labels'' store0"
  have h: "getNumericColumn (snd ?ds) (fst ?ds) ''v'' = []"
    unfolding getNumericColumn_def array_at_dataset_of_rows
    by (simp add: label_rows_def get_prop_def)
  have n: "filter is_number (map (\<lambda>r. get_prop r ''v'') label_rows) = []"
    by (simp add: label_rows_def get_prop_def)
  from C10_describeColumn_min_max_zero[OF h, of label_rows] h n show ?thesis by simp
qed

subsection \<open>\<^verbatim>\<open>dropNulls\<close>\<close>

lemma set_foldl_add_name: "set (foldl add_name acc ks) = set acc \<union> set ks"
  by (induction ks arbitrary: acc) (auto simp: add_name_def)

lemma set_columnNames_acc:
  "set (foldl (\<lambda>seen row. foldl add_name seen (object_keys row)) acc rs)
     = set acc \<union> (\<Union>row\<in>set rs. set (object_keys row))"
  by (induction rs arbitrary: acc) (auto simp: set_foldl_add_name)

lemma set_columnNames: "set (columnNames rs) = (\<Union>row\<in>set rs. set (object_keys row))"
  by (simp add: columnNames_def set_columnNames_acc)

lemma columns_inferSchema:
  "map column_name (meta_columns (inferSchema rs name)) = columnNames rs"
  by (simp add: inferSchema_def columnNames_def comp_def)

lemma columns_createDataset:
  "map column_name (meta_columns (metadata (createDataset r name desc s))) = columnNames (array_at s r)"
  by (simp add: createDataset_def Let_def columns_inferSchema)

lemma dropNulls_rows:
  "dropNulls d cols s = (d', s') \<Longrightarrow>
   array_at s' (rows d') =
     filter (\<lambda>row. list_all (\<lambda>col. \<not> is_nullish (get_prop row col))
                      (case cols of Some cs \<Rightarrow> cs | None \<Rightarrow> map column_name (meta_columns (metadata d))))
       (array_at s (rows d))
   \<and> map column_name (meta_columns (metadata d')) = columnNames (array_at s' (rows d'))"
  by (auto simp: dropNulls_def Let_def split_beta columns_createDataset)

lemma schema_covers_createDataset: "schema_covers s (createDataset r name desc s)"
  unfolding schema_covers_def columns_createDataset set_columnNames by auto

lemma schema_covers_dataset_of_rows:
  "schema_covers (snd (dataset_of_rows rs name s)) (fst (dataset_of_rows rs name s))"
  by (simp add: dataset_of_rows_def split_beta schema_covers_createDataset)

text \<open>
  C9 (\<^verbatim>\<open>dropNulls\<close> is idempotent). Let the schema of \<open>d\<close> list every key of its
  rows, as the schema of every dataset made by \<^verbatim>\<open>createDataset\<close> does. Then
  \<^verbatim>\<open>dropNulls\<close> with the default columns, applied to the result of
  \<^verbatim>\<open>dropNulls\<close> with the default columns on \<open>d\<close>, returns a dataset with the same
  rows as that result.
\<close>

theorem C9_dropNulls_idempotent:
  assumes cov: "schema_covers s d"
    and one: "dropNulls d None s = (d1, s1)"
    and two: "dropNulls d1 None s1 = (d2, s2)"
  shows "array_at s2 (rows d2) = array_at s1 (rows d1)"
proof -
  let ?cs = "map column_name (meta_columns (metadata d))"
  let ?ok = "\<lambda>cs row. list_all (\<lambda>col. \<not> is_nullish (get_prop row col)) cs"
  let ?F = "filter (?ok ?cs) (array_at s (rows d))"
  from dropNulls_rows[OF one] have r1: "array_at s1 (rows d1) = ?F"
    and c1: "map column_name (meta_columns (metadata d1)) = columnNames ?F" by simp_all
  from dropNulls_rows[OF two] have r2: "array_at s2 (rows d2) = filter (?ok (columnNames ?F)) ?F"
    using r1 c1 by simp
  have "\<forall>row\<in>set ?F. ?ok (columnNames ?F) row"
  proof
    fix row assume row: "row \<in> set ?F"
    have "\<not> is_nullish (get_prop row c)" if "c \<in> set (columnNames ?F)" for c
    proof -
      from that obtain row' where "row' \<in> set ?F" "c \<in> set (object_keys row')"
        unfolding set_columnNames by blast
      then have "c \<in> set ?cs" using cov unfolding schema_covers_def by auto
      moreover have "?ok ?cs row" using row by simp
      ultimately show ?thesis by (auto simp: list_all_iff)
    qed
    then show "?ok (columnNames ?F) row" by (simp add: list_all_iff)
  qed
  then have "filter (?ok (columnNames ?F)) ?F = ?F" by (rule filter_True)
  with r1 r2 show ?thesis by simp
qed

theorem C9_dropNulls_idempotent_witness:
  "schema_covers (snd (dataset_of_rows nullable_rows ''t'' store0))
     (fst (dataset_of_rows nullable_rows ''t'' store0)) \<and>
   array_at
     (snd (dropNulls (fst (dataset_of_rows nullable_rows ''t'' store0)) None
             (snd (dataset_of_rows nullable_rows ''t'' store0))))
     (rows (fst (dropNulls (fst (dataset_of_rows nullable_rows ''t'' store0)) None
             (snd (dataset_of_rows nullable_rows ''t'' store0)))))
     = [[(''a'', VNum (Fin 1)), (''b'', VStr ''x'')], [(''a'', VNum (Fin 4)), (''b'', VStr ''z'')]] \<and>
   array_at
     (snd (dropNulls
             (fst (dropNulls (fst (dataset_of_rows nullable_rows ''t'' store0)) None
                     (snd (dataset_of_rows nullable_rows ''t'' store0))))
             None
             (snd (dropNulls (fst (dataset_of_rows nullable_rows ''t'' store0)) None
                     (snd (dataset_of_rows nullable_rows ''t'' store0))))))
     (rows (fst (dropNulls
             (fst (dropNulls (fst (dataset_of_rows nullable_rows ''t'' store0)) None
                     (snd (dataset_of_rows nullable_rows ''t'' store0))))
             None
             (snd (dropNulls (fst (dataset_of_rows nullable_rows ''t'' store0)) None
                     (snd (dataset_of_rows nullable_rows ''t'' store0)))))))
     = [[(''a'', VNum (Fin 1)), (''b'', VStr ''x'')], [(''a'', VNum (Fin 4)), (''b'', VStr ''z'')]]"
proof -
  let ?ds = "dataset_of_rows nullable_rows ''t'' store0"
  let ?one = "dropNulls (fst ?ds) None (snd ?ds)"
  let ?two = "dropNulls (fst ?one) None (snd ?one)"
  have cov: "schema_covers (snd ?ds) (fst ?ds)" by (rule schema_covers_dataset_of_rows)
  have one: "?one = (fst ?one, snd ?one)" and two: "?two = (fst ?two, snd ?two)" by simp_all
  have cols: "map column_name (meta_columns (metadata (fst ?ds))) = [''a'', ''b'']"
    by (simp add: dataset_of_rows_def split_beta columns_createDataset columnNames_def
          nullable_rows_def object_keys_def add_name_def)
  have first: "array_at (snd ?one) (rows (fst ?one)) =
      [[(''a'', VNum (Fin 1)), (''b'', VStr ''x'')], [(''a'', VNum (Fin 4)), (''b'', VStr ''z'')]]"
    using dropNulls_rows[OF one] unfolding cols array_at_dataset_of_rows
    by (simp add: nullable_rows_def get_prop_def)
  from C9_dropNulls_idempotent[OF cov one two] first cov show ?thesis by simp
qed

subsection \<open>\<^verbatim>\<open>sortBy\<close>\<close>

text \<open>
  First the host: the sort of V8 meets the contract, whatever the comparator answers, on
  a short array and on a long one, and the sorted order that the language requires of a
  consistent comparator implies its second half.
\<close>

lemma neighbours_ok_successively:
  "neighbours_ok cmp xs = successively (\<lambda>x y. \<not> (0 < cmp x y \<and> cmp y x < 0)) xs"
  by (induction cmp xs rule: neighbours_ok.induct) auto

lemma binary_position_bounds:
  "left \<le> right \<Longrightarrow> right \<le> length placed \<Longrightarrow>
   (0 < left \<longrightarrow> 0 \<le> cmp pivot (placed ! (left - 1))) \<Longrightarrow>
   (right < length placed \<longrightarrow> cmp pivot (placed ! right) < 0) \<Longrightarrow>
   binary_position cmp pivot placed left right \<le> length placed \<and>
   (0 < binary_position cmp pivot placed left right \<longrightarrow>
      0 \<le> cmp pivot (placed ! (binary_position cmp pivot placed left right - 1))) \<and>
   (binary_position cmp pivot placed left right < length placed \<longrightarrow>
      cmp pivot (placed ! binary_position cmp pivot placed left right) < 0)"
proof (induction cmp pivot placed left right rule: binary_position.induct)
  case (1 cmp pivot placed left right)
  show ?case
  proof (cases "left < right")
    case False
    then have "binary_position cmp pivot placed left right = left"
      by (subst binary_position.simps) simp
    with 1 False show ?thesis by simp
  next
    case True
    let ?mid = "left + (right - left) div 2"
    have mid: "left \<le> ?mid" "?mid < right" using True by auto
    show ?thesis
    proof (cases "cmp pivot (placed ! ?mid) < 0")
      case lt: True
      have eq: "binary_position cmp pivot placed left right = binary_position cmp pivot placed left ?mid"
        using True lt by (subst binary_position.simps) (simp add: Let_def)
      have "?mid \<le> length placed" using mid "1.prems" by simp
      from "1.IH"(1)[OF True refl refl lt mid(1) this "1.prems"(3)] lt
      show ?thesis unfolding eq by simp
    next
      case ge: False
      have eq: "binary_position cmp pivot placed left right = binary_position cmp pivot placed (?mid + 1) right"
        using True ge by (subst binary_position.simps) (simp add: Let_def)
      have a: "?mid + 1 \<le> right" using mid by simp
      have b: "0 < ?mid + 1 \<longrightarrow> 0 \<le> cmp pivot (placed ! (?mid + 1 - 1))" using ge by simp
      from "1.IH"(2)[OF True refl refl ge a "1.prems"(2) b "1.prems"(4)]
      show ?thesis unfolding eq by simp
    qed
  qed
qed


lemma mset_insert_pivot: "mset (insert_pivot cmp placed pivot) = add_mset pivot (mset placed)"
proof -
  let ?k = "binary_position cmp pivot placed 0 (length placed)"
  have "mset (take ?k placed) + mset (drop ?k placed) = mset placed"
    by (simp only: mset_append [symmetric] append_take_drop_id)
  then show ?thesis by (simp add: insert_pivot_def Let_def)
qed

lemma neighbours_ok_insert_pivot:
  assumes "neighbours_ok cmp placed"
  shows "neighbours_ok cmp (insert_pivot cmp placed pivot)"
proof -
  let ?P = "\<lambda>x y. \<not> (0 < cmp x y \<and> cmp y x < 0)"
  let ?k = "binary_position cmp pivot placed 0 (length placed)"
  from binary_position_bounds[of 0 "length placed" placed cmp pivot]
  have k: "?k \<le> length placed"
    and before: "0 < ?k \<longrightarrow> 0 \<le> cmp pivot (placed ! (?k - 1))"
    and after: "?k < length placed \<longrightarrow> cmp pivot (placed ! ?k) < 0"
    by simp_all
  have s: "successively ?P placed" using assms by (simp add: neighbours_ok_successively)
  have "successively ?P (take ?k placed @ drop ?k placed)" using s by simp
  then have t: "successively ?P (take ?k placed)" and d: "successively ?P (drop ?k placed)"
    unfolding successively_append_iff by simp_all
  have l: "take ?k placed \<noteq> [] \<Longrightarrow> ?P (last (take ?k placed)) pivot"
  proof -
    assume ne: "take ?k placed \<noteq> []"
    then have pos: "0 < ?k" by (cases "?k") auto
    have "last (take ?k placed) = placed ! (?k - 1)"
      using ne k pos by (simp add: last_conv_nth min_def)
    with before pos show ?thesis by simp
  qed
  have r: "drop ?k placed \<noteq> [] \<Longrightarrow> ?P pivot (hd (drop ?k placed))"
  proof -
    assume ne: "drop ?k placed \<noteq> []"
    then have lt: "?k < length placed" by simp
    then have "hd (drop ?k placed) = placed ! ?k" by (simp add: hd_drop_conv_nth)
    with after lt show ?thesis by simp
  qed
  have "successively ?P (take ?k placed @ pivot # drop ?k placed)"
    unfolding successively_append_iff successively_Cons using t d l r by auto
  then show ?thesis by (simp add: neighbours_ok_successively insert_pivot_def Let_def)
qed

lemma foldl_insert_pivot:
  "neighbours_ok cmp run \<Longrightarrow>
   neighbours_ok cmp (foldl (insert_pivot cmp) run rest) \<and>
   mset (foldl (insert_pivot cmp) run rest) = mset run + mset rest"
proof (induction rest arbitrary: run)
  case Nil
  then show ?case by simp
next
  case (Cons x rest)
  from Cons.IH[OF neighbours_ok_insert_pivot[OF Cons.prems, of x]]
  show ?case by (simp add: mset_insert_pivot)
qed

lemma run_more_le: "run_more cmp d previous rest \<le> length rest"
  by (induction rest arbitrary: previous) (auto simp: Let_def)

lemma run_more_chain:
  "successively (\<lambda>p c. if d then cmp c p < 0 else 0 \<le> cmp c p)
     (previous # take (run_more cmp d previous rest) rest)"
proof (induction rest arbitrary: previous)
  case Nil
  then show ?case by simp
next
  case (Cons c rest)
  show ?case using Cons[of c] by (auto simp: Let_def successively_Cons)
qed

lemma count_and_make_run_ok:
  assumes "count_and_make_run cmp xs = (run, rest)"
  shows "neighbours_ok cmp run \<and> mset run + mset rest = mset xs"
proof -
  consider "xs = []" | x where "xs = [x]" | x y tl where "xs = x # y # tl"
  proof (cases xs)
    case Nil
    then show ?thesis using that(1) by simp
  next
    case (Cons x t)
    then show ?thesis using that(2,3) by (cases t) auto
  qed
  then show ?thesis
  proof cases
    case 1
    with assms show ?thesis by simp
  next
    case 2
    with assms show ?thesis by auto
  next
    case (3 x y tl)
    note xs = 3
  let ?d = "cmp y x < 0"
  let ?n = "2 + run_more cmp ?d y tl"
  let ?R = "\<lambda>p c. if ?d then cmp c p < 0 else 0 \<le> cmp c p"
  let ?P = "\<lambda>x y. \<not> (0 < cmp x y \<and> cmp y x < 0)"
  have tk: "take ?n xs = x # y # take (run_more cmp ?d y tl) tl" by (simp add: xs)
  have "successively ?R (y # take (run_more cmp ?d y tl) tl)" by (rule run_more_chain)
  moreover have "?R x y" by simp
  ultimately have chain: "successively ?R (take ?n xs)" unfolding tk by simp
  have "count_and_make_run cmp xs =
          (if ?d then rev (take ?n xs) else take ?n xs, drop ?n xs)"
    unfolding xs by (simp only: count_and_make_run.simps Let_def)
  with assms have run: "run = (if ?d then rev (take ?n xs) else take ?n xs)"
    and rest: "rest = drop ?n xs"
    by (simp_all only: prod.inject)
  have "successively ?P run"
  proof (cases ?d)
    case True
    then have "successively (\<lambda>p c. cmp c p < 0) (take ?n xs)" using chain by simp
    then have "successively (\<lambda>a b. ?P b a) (take ?n xs)"
      by (rule successively_mono) auto
    then show ?thesis using True run by simp
  next
    case False
    then have "successively (\<lambda>p c. 0 \<le> cmp c p) (take ?n xs)" using chain by simp
    then have "successively ?P (take ?n xs)"
      by (rule successively_mono) auto
    then show ?thesis using False run by simp
  qed
  moreover have "mset run + mset rest = mset xs"
  proof -
    have "mset (take ?n xs) + mset (drop ?n xs) = mset xs"
      by (simp only: mset_append [symmetric] append_take_drop_id)
    then show ?thesis using run rest by (cases ?d) simp_all
  qed
  ultimately show ?thesis by (simp add: neighbours_ok_successively)
  qed
qed

lemma short_array_sort_ok:
  "mset (short_array_sort cmp xs) = mset xs \<and> neighbours_ok cmp (short_array_sort cmp xs)"
proof (cases "length xs < 2")
  case True
  then have "xs = [] \<or> (\<exists>x. xs = [x])" by (cases xs) (auto simp: less_Suc_eq_0_disj)
  then show ?thesis by (auto simp: short_array_sort_def)
next
  case False
  obtain run rest where cr: "count_and_make_run cmp xs = (run, rest)"
    by (cases "count_and_make_run cmp xs")
  from count_and_make_run_ok[OF cr] foldl_insert_pivot[of cmp run rest]
  show ?thesis using False cr by (simp add: short_array_sort_def)
qed

lemma host_sort_contract_short_array_sort: "host_sort_contract short_array_sort"
  unfolding host_sort_contract_def using short_array_sort_ok by blast

text \<open>
  The same holds of the sort on a long array. A search ends at a position with the probes
  that closed the interval on it: the element before was probed and sent the search
  right, the element at the position was probed and sent it left.
\<close>

lemma narrowed_facts:
  "narrowed gl run lo hi k \<Longrightarrow>
   lo \<le> k \<and> k \<le> hi \<and> (lo < k \<longrightarrow> \<not> gl (run ! (k - 1))) \<and> (k < hi \<longrightarrow> gl (run ! k))"
proof (induction rule: narrowed.induct)
  case (found k)
  then show ?case by simp
next
  case (probe_left lo m hi k)
  then show ?case by (cases "k = m") auto
next
  case (probe_right lo m hi k)
  then show ?case by (cases "k = m + 1") auto
qed

lemma ok_append:
  "neighbours_ok cmp (xs @ ys) = (neighbours_ok cmp xs \<and> neighbours_ok cmp ys \<and> linked cmp xs ys)"
  by (simp add: neighbours_ok_successively successively_append_iff linked_def)

lemma neighbours_ok_Cons:
  "neighbours_ok cmp (x # xs) = (neighbours_ok cmp xs \<and> (xs = [] \<or> in_order cmp x (hd xs)))"
  by (cases xs) auto

lemma neighbours_ok_take: "neighbours_ok cmp xs \<Longrightarrow> neighbours_ok cmp (take k xs)"
  using ok_append [of cmp "take k xs" "drop k xs"] by simp

lemma neighbours_ok_drop: "neighbours_ok cmp xs \<Longrightarrow> neighbours_ok cmp (drop k xs)"
  using ok_append [of cmp "take k xs" "drop k xs"] by simp

lemma linked_take_drop:
  "neighbours_ok cmp xs \<Longrightarrow> linked cmp (take k xs) (drop k xs)"
  using ok_append [of cmp "take k xs" "drop k xs"] by simp

lemma last_take_nth:
  assumes "0 < k" and "k \<le> length xs"
  shows "last (take k xs) = xs ! (k - 1)"
proof -
  have "take k xs \<noteq> []" using assms by auto
  then have "last (take k xs) = take k xs ! (length (take k xs) - 1)"
    by (rule last_conv_nth)
  then show ?thesis using assms by (simp add: min_def)
qed

text \<open>
  A merge from the left keeps the neighbours in order: every element is written next to
  one it was compared with, or next to its neighbour in its own run. The result ends with
  the last element of one of the runs.
\<close>

lemma forward_merge_ok:
  "forward_merge cmp pre A B res \<Longrightarrow>
   neighbours_ok cmp pre \<Longrightarrow> neighbours_ok cmp A \<Longrightarrow> neighbours_ok cmp B \<Longrightarrow>
   linked cmp pre A \<Longrightarrow> linked cmp pre B \<Longrightarrow>
   (A \<noteq> [] \<longrightarrow> B \<noteq> [] \<longrightarrow> in_order cmp (last B) (last A)) \<Longrightarrow>
   neighbours_ok cmp res \<and> mset res = mset pre + mset A + mset B \<and>
   (A = [] \<and> B = [] \<longrightarrow> res = pre) \<and>
   (A \<noteq> [] \<or> B \<noteq> [] \<longrightarrow> A \<noteq> [] \<and> last res = last A \<or> B \<noteq> [] \<and> last res = last B)"
proof (induction rule: forward_merge.induct)
  case (left_empty pre B)
  then show ?case by (auto simp: ok_append)
next
  case (right_empty pre A)
  then show ?case by (auto simp: ok_append)
next
  case (copy_right pre a B)
  then show ?case by (cases "B = []") (auto simp: ok_append linked_def hd_append)
next
  case (take_right b a pre A B res)
  have "neighbours_ok cmp (pre @ [b])"
    using take_right.prems by (auto simp: ok_append linked_def)
  moreover have "linked cmp (pre @ [b]) (a # A)"
    using take_right.hyps by (auto simp: linked_def)
  moreover have "linked cmp (pre @ [b]) B" "neighbours_ok cmp B"
    using take_right.prems(3) by (auto simp: linked_def neighbours_ok_Cons)
  moreover have "a # A \<noteq> [] \<longrightarrow> B \<noteq> [] \<longrightarrow> in_order cmp (last B) (last (a # A))"
    using take_right.prems(6) by auto
  ultimately have "neighbours_ok cmp res \<and> mset res = mset (pre @ [b]) + mset (a # A) + mset B \<and>
     ((a # A) = [] \<and> B = [] \<longrightarrow> res = pre @ [b]) \<and>
     (a # A \<noteq> [] \<or> B \<noteq> [] \<longrightarrow> a # A \<noteq> [] \<and> last res = last (a # A) \<or> B \<noteq> [] \<and> last res = last B)"
    using take_right.IH take_right.prems(2) by blast
  then show ?case by auto
next
  case (take_left b a pre A B res)
  have "neighbours_ok cmp (pre @ [a])"
    using take_left.prems by (auto simp: ok_append linked_def)
  moreover have "linked cmp (pre @ [a]) (b # B)"
    using take_left.hyps by (auto simp: linked_def)
  moreover have "linked cmp (pre @ [a]) A" "neighbours_ok cmp A"
    using take_left.prems(2) by (auto simp: linked_def neighbours_ok_Cons)
  moreover have "A \<noteq> [] \<longrightarrow> b # B \<noteq> [] \<longrightarrow> in_order cmp (last (b # B)) (last A)"
    using take_left.prems(6) by auto
  ultimately have "neighbours_ok cmp res \<and> mset res = mset (pre @ [a]) + mset A + mset (b # B) \<and>
     (A = [] \<and> (b # B) = [] \<longrightarrow> res = pre @ [a]) \<and>
     (A \<noteq> [] \<or> b # B \<noteq> [] \<longrightarrow> A \<noteq> [] \<and> last res = last A \<or> b # B \<noteq> [] \<and> last res = last (b # B))"
    using take_left.IH take_left.prems(3) by blast
  then show ?case by auto
next
  case (gallop_left_run b A k pre B res)
  note facts = narrowed_facts [OF gallop_left_run.hyps(1)]
  have k: "k \<le> length A" using facts by simp
  have before: "0 < k \<Longrightarrow> \<not> cmp b (A ! (k - 1)) < 0" using facts by simp
  have after: "k < length A \<Longrightarrow> cmp b (A ! k) < 0" using facts by simp
  have lastk: "0 < k \<Longrightarrow> last (take k A) = A ! (k - 1)"
    using k by (simp add: last_take_nth)
  have hdk: "k < length A \<Longrightarrow> hd (drop k A) = A ! k"
    by (simp add: hd_drop_conv_nth)
  have "linked cmp pre (take k A)"
    using gallop_left_run.prems(4) by (cases A; cases k) (auto simp: linked_def)
  moreover have "linked cmp (pre @ take k A) [b]"
  proof (cases "k = 0")
    case True
    then show ?thesis using gallop_left_run.prems(5) by (auto simp: linked_def)
  next
    case False
    then have "take k A \<noteq> []" using k by auto
    then show ?thesis using before lastk False by (auto simp: linked_def)
  qed
  ultimately have "neighbours_ok cmp ((pre @ take k A) @ [b])"
    using gallop_left_run.prems(1,2) neighbours_ok_take [of cmp A k]
    by (simp only: ok_append neighbours_ok.simps simp_thms)
  then have 1: "neighbours_ok cmp (pre @ take k A @ [b])" by simp
  have 2: "neighbours_ok cmp (drop k A)"
    using gallop_left_run.prems(2) by (rule neighbours_ok_drop)
  have 3: "neighbours_ok cmp B" "linked cmp (pre @ take k A @ [b]) B"
    using gallop_left_run.prems(3) by (auto simp: linked_def neighbours_ok_Cons)
  have 4: "linked cmp (pre @ take k A @ [b]) (drop k A)"
    using after hdk by (auto simp: linked_def)
  have 5: "drop k A \<noteq> [] \<longrightarrow> B \<noteq> [] \<longrightarrow> in_order cmp (last B) (last (drop k A))"
    using gallop_left_run.prems(6) by auto
  have "neighbours_ok cmp res \<and> mset res = mset (pre @ take k A @ [b]) + mset (drop k A) + mset B \<and>
     ((drop k A) = [] \<and> B = [] \<longrightarrow> res = pre @ take k A @ [b]) \<and>
     (drop k A \<noteq> [] \<or> B \<noteq> [] \<longrightarrow> drop k A \<noteq> [] \<and> last res = last (drop k A) \<or> B \<noteq> [] \<and> last res = last B)"
    using gallop_left_run.IH 1 2 3 4 5 by blast
  moreover have "mset (take k A) + mset (drop k A) = mset A"
    by (simp only: mset_append [symmetric] append_take_drop_id)
  ultimately show ?case by (auto simp: add.assoc add.left_commute)
next
  case (gallop_right_run a B k pre A res)
  note facts = narrowed_facts [OF gallop_right_run.hyps(1)]
  have k: "k \<le> length B" using facts by simp
  have before: "0 < k \<Longrightarrow> cmp (B ! (k - 1)) a < 0" using facts by simp
  have after: "k < length B \<Longrightarrow> \<not> cmp (B ! k) a < 0" using facts by simp
  have lastk: "0 < k \<Longrightarrow> last (take k B) = B ! (k - 1)"
    using k by (simp add: last_take_nth)
  have hdk: "k < length B \<Longrightarrow> hd (drop k B) = B ! k"
    by (simp add: hd_drop_conv_nth)
  have "linked cmp pre (take k B)"
    using gallop_right_run.prems(5) by (cases B; cases k) (auto simp: linked_def)
  moreover have "linked cmp (pre @ take k B) [a]"
  proof (cases "k = 0")
    case True
    then show ?thesis using gallop_right_run.prems(4) by (auto simp: linked_def)
  next
    case False
    then have "take k B \<noteq> []" using k by auto
    then show ?thesis using before lastk False by (auto simp: linked_def)
  qed
  ultimately have "neighbours_ok cmp ((pre @ take k B) @ [a])"
    using gallop_right_run.prems(1,3) neighbours_ok_take [of cmp B k]
    by (simp only: ok_append neighbours_ok.simps simp_thms)
  then have 1: "neighbours_ok cmp (pre @ take k B @ [a])" by simp
  have 2: "neighbours_ok cmp (drop k B)"
    using gallop_right_run.prems(3) by (rule neighbours_ok_drop)
  have 3: "neighbours_ok cmp A" "linked cmp (pre @ take k B @ [a]) A"
    using gallop_right_run.prems(2) by (auto simp: linked_def neighbours_ok_Cons)
  have 4: "linked cmp (pre @ take k B @ [a]) (drop k B)"
    using after hdk by (auto simp: linked_def)
  have 5: "A \<noteq> [] \<longrightarrow> drop k B \<noteq> [] \<longrightarrow> in_order cmp (last (drop k B)) (last A)"
    using gallop_right_run.prems(6) by auto
  have "neighbours_ok cmp res \<and> mset res = mset (pre @ take k B @ [a]) + mset A + mset (drop k B) \<and>
     (A = [] \<and> (drop k B) = [] \<longrightarrow> res = pre @ take k B @ [a]) \<and>
     (A \<noteq> [] \<or> drop k B \<noteq> [] \<longrightarrow> A \<noteq> [] \<and> last res = last A \<or> drop k B \<noteq> [] \<and> last res = last (drop k B))"
    using gallop_right_run.IH 1 2 3 4 5 by blast
  moreover have "mset (take k B) + mset (drop k B) = mset B"
    by (simp only: mset_append [symmetric] append_take_drop_id)
  ultimately show ?case by (auto simp: add.assoc add.left_commute)
qed

text \<open>The merge from the right, by reading it from right to left.\<close>

lemma neighbours_ok_flip_rev:
  "neighbours_ok (\<lambda>x y. cmp y x) (rev xs) = neighbours_ok cmp xs"
  by (simp add: neighbours_ok_successively successively_rev)

lemma linked_flip_rev:
  "linked (\<lambda>x y. cmp y x) (rev ys) (rev xs) = linked cmp xs ys"
  by (auto simp: linked_def hd_rev last_rev)

lemma backward_merge_ok:
  assumes "backward_merge cmp A B post res"
    and "neighbours_ok cmp post" and "neighbours_ok cmp A" and "neighbours_ok cmp B"
    and "linked cmp A post" and "linked cmp B post"
    and "A \<noteq> [] \<longrightarrow> B \<noteq> [] \<longrightarrow> in_order cmp (hd B) (hd A)"
  shows "neighbours_ok cmp res \<and> mset res = mset A + mset B + mset post \<and>
         (A = [] \<and> B = [] \<longrightarrow> res = post) \<and>
         (A \<noteq> [] \<or> B \<noteq> [] \<longrightarrow> A \<noteq> [] \<and> hd res = hd A \<or> B \<noteq> [] \<and> hd res = hd B)"
proof -
  let ?c = "\<lambda>x y. cmp y x"
  have m: "forward_merge ?c (rev post) (rev B) (rev A) (rev res)"
    using assms(1) by (simp add: backward_merge_def)
  have 1: "neighbours_ok ?c (rev post)" "neighbours_ok ?c (rev B)" "neighbours_ok ?c (rev A)"
    using assms(2-4) by (simp_all add: neighbours_ok_flip_rev)
  have 2: "linked ?c (rev post) (rev B)" "linked ?c (rev post) (rev A)"
    using assms(5,6) by (simp_all add: linked_flip_rev)
  have 3: "rev B \<noteq> [] \<longrightarrow> rev A \<noteq> [] \<longrightarrow> in_order ?c (last (rev A)) (last (rev B))"
    using assms(7) by (auto simp: last_rev)
  have r: "neighbours_ok ?c (rev res) \<and> mset (rev res) = mset (rev post) + mset (rev B) + mset (rev A) \<and>
     (rev B = [] \<and> rev A = [] \<longrightarrow> rev res = rev post) \<and>
     (rev B \<noteq> [] \<or> rev A \<noteq> [] \<longrightarrow>
        rev B \<noteq> [] \<and> last (rev res) = last (rev B) \<or> rev A \<noteq> [] \<and> last (rev res) = last (rev A))"
    by (rule forward_merge_ok [OF m 1(1) 1(2) 1(3) 2(1) 2(2) 3])
  have "neighbours_ok cmp res" using r by (simp add: neighbours_ok_flip_rev)
  moreover have "mset res = mset A + mset B + mset post" using r by (simp add: add.commute add.left_commute)
  moreover have "A = [] \<and> B = [] \<longrightarrow> res = post" using r by simp
  moreover have "A \<noteq> [] \<or> B \<noteq> [] \<longrightarrow> A \<noteq> [] \<and> hd res = hd A \<or> B \<noteq> [] \<and> hd res = hd B"
    using r by (auto simp: last_rev)
  ultimately show ?thesis by blast
qed

lemma mset_take_drop: "mset (take k xs) + mset (drop k xs) = mset xs"
  by (simp only: mset_append [symmetric] append_take_drop_id)

lemma merge_at_ok:
  assumes "merge_at cmp A B res" and okA: "neighbours_ok cmp A" and okB: "neighbours_ok cmp B"
  shows "neighbours_ok cmp res \<and> mset res = mset A + mset B"
  using assms(1)
proof (cases rule: merge_at.cases)
  case in_place
  note facts = narrowed_facts [OF in_place(3)]
  have "linked cmp A B"
  proof (cases "A = []")
    case True
    then show ?thesis by (simp add: linked_def)
  next
    case False
    then have "last A = A ! (length A - 1)" by (rule last_conv_nth)
    moreover have "\<not> cmp (hd B) (A ! (length A - 1)) < 0" using facts False by simp
    ultimately show ?thesis by (simp add: linked_def)
  qed
  then show ?thesis using in_place(1) okA okB by (simp add: ok_append)
next
  case (merge_low k l M)
  note f1 = narrowed_facts [OF merge_low(3)]
  note f2 = narrowed_facts [OF merge_low(5)]
  have k: "k < length A" by (rule merge_low(4))
  have l: "l \<le> length B" using f2 by simp
  have a1: "0 < k \<Longrightarrow> \<not> cmp (hd B) (A ! (k - 1)) < 0" using f1 by simp
  have b1: "0 < l \<Longrightarrow> cmp (B ! (l - 1)) (last A) < 0" using f2 by simp
  have b2: "l < length B \<Longrightarrow> \<not> cmp (B ! l) (last A) < 0" using f2 by simp
  have lastA: "last (drop k A) = last A" using k by simp
  have hdB: "0 < l \<Longrightarrow> hd (take l B) = hd B" by (cases B; cases l) auto
  have p1: "linked cmp (take k A) (take l B)"
  proof (cases "k = 0 \<or> l = 0")
    case True
    then show ?thesis by (auto simp: linked_def)
  next
    case False
    then show ?thesis using a1 hdB last_take_nth [of k A] k by (auto simp: linked_def)
  qed
  have p2: "drop k A \<noteq> [] \<longrightarrow> take l B \<noteq> [] \<longrightarrow> in_order cmp (last (take l B)) (last (drop k A))"
  proof (cases "l = 0")
    case True
    then show ?thesis by simp
  next
    case False
    then show ?thesis using b1 lastA last_take_nth [of l B] l by auto
  qed
  have r: "neighbours_ok cmp M \<and> mset M = mset (take k A) + mset (drop k A) + mset (take l B) \<and>
     (drop k A = [] \<and> take l B = [] \<longrightarrow> M = take k A) \<and>
     (drop k A \<noteq> [] \<or> take l B \<noteq> [] \<longrightarrow>
        drop k A \<noteq> [] \<and> last M = last (drop k A) \<or> take l B \<noteq> [] \<and> last M = last (take l B))"
    by (rule forward_merge_ok [OF merge_low(6) neighbours_ok_take [OF okA] neighbours_ok_drop [OF okA]
          neighbours_ok_take [OF okB] linked_take_drop [OF okA] p1 p2])
  have nonempty: "drop k A \<noteq> []" using k by simp
  have "linked cmp M (drop l B)"
  proof (cases "l < length B")
    case False
    then show ?thesis by (simp add: linked_def)
  next
    case True
    then have hd: "hd (drop l B) = B ! l" by (simp add: hd_drop_conv_nth)
    from r nonempty consider "last M = last A" | "take l B \<noteq> []" "last M = last (take l B)"
      using lastA by auto
    then show ?thesis
    proof cases
      case 1
      then show ?thesis using b2 [OF True] hd by (simp add: linked_def)
    next
      case 2
      then show ?thesis using linked_take_drop [OF okB, of l] by (simp add: linked_def)
    qed
  qed
  then have "neighbours_ok cmp (M @ drop l B)"
    using r neighbours_ok_drop [OF okB, of l] by (simp add: ok_append)
  moreover have "mset (M @ drop l B) = mset A + mset B"
    using r mset_take_drop [of k A] mset_take_drop [of l B] by (simp add: add.assoc)
  ultimately show ?thesis using merge_low(1) by simp
next
  case (merge_high k l M)
  note f1 = narrowed_facts [OF merge_high(3)]
  note f2 = narrowed_facts [OF merge_high(5)]
  have k: "k < length A" by (rule merge_high(4))
  have l: "l \<le> length B" using f2 by simp
  have a1: "0 < k \<Longrightarrow> \<not> cmp (hd B) (A ! (k - 1)) < 0" using f1 by simp
  have a2: "cmp (hd B) (A ! k) < 0" using f1 k by simp
  have b2: "l < length B \<Longrightarrow> \<not> cmp (B ! l) (last A) < 0" using f2 by simp
  have lastA: "last (drop k A) = last A" using k by simp
  have hdA: "hd (drop k A) = A ! k" using k by (simp add: hd_drop_conv_nth)
  have hdB: "0 < l \<Longrightarrow> hd (take l B) = hd B" by (cases B; cases l) auto
  have p1: "linked cmp (drop k A) (drop l B)"
  proof (cases "l < length B")
    case False
    then show ?thesis by (simp add: linked_def)
  next
    case True
    then show ?thesis using b2 lastA by (simp add: linked_def hd_drop_conv_nth)
  qed
  have p2: "drop k A \<noteq> [] \<longrightarrow> take l B \<noteq> [] \<longrightarrow> in_order cmp (hd (take l B)) (hd (drop k A))"
  proof (cases "l = 0")
    case True
    then show ?thesis by simp
  next
    case False
    then show ?thesis using a2 hdA hdB by auto
  qed
  have r: "neighbours_ok cmp M \<and> mset M = mset (drop k A) + mset (take l B) + mset (drop l B) \<and>
     (drop k A = [] \<and> take l B = [] \<longrightarrow> M = drop l B) \<and>
     (drop k A \<noteq> [] \<or> take l B \<noteq> [] \<longrightarrow>
        drop k A \<noteq> [] \<and> hd M = hd (drop k A) \<or> take l B \<noteq> [] \<and> hd M = hd (take l B))"
    by (rule backward_merge_ok [OF merge_high(6) neighbours_ok_drop [OF okB] neighbours_ok_drop [OF okA]
          neighbours_ok_take [OF okB] p1 linked_take_drop [OF okB] p2])
  have nonempty: "drop k A \<noteq> []" using k by simp
  have "linked cmp (take k A) M"
  proof (cases "k = 0")
    case True
    then show ?thesis by (simp add: linked_def)
  next
    case False
    then have la: "last (take k A) = A ! (k - 1)" using k by (simp add: last_take_nth)
    from r nonempty consider "hd M = A ! k" | "take l B \<noteq> []" "hd M = hd (take l B)"
      using hdA by auto
    then show ?thesis
    proof cases
      case 1
      then show ?thesis using linked_take_drop [OF okA, of k] hdA k by (auto simp: linked_def)
    next
      case 2
      then have "0 < l" by auto
      then show ?thesis using 2 a1 False la hdB by (simp add: linked_def)
    qed
  qed
  then have "neighbours_ok cmp (take k A @ M)"
    using r neighbours_ok_take [OF okA, of k] by (simp add: ok_append)
  moreover have "mset (take k A @ M) = mset A + mset B"
    using r mset_take_drop [of k A] mset_take_drop [of l B] by (simp add: add.assoc)
  ultimately show ?thesis using merge_high(1) by simp
qed

text \<open>
  So every run on the stack has its neighbours in order, and the runs and what is left
  to do hold the elements of the array; and every result of the sort meets the contract.
\<close>

lemma sort_state_ok:
  "sort_state cmp xs runs todo \<Longrightarrow>
   (\<forall>r \<in> set runs. neighbours_ok cmp r) \<and> mset (concat runs) + mset todo = mset xs"
proof (induction rule: sort_state.induct)
  case start
  then show ?case by simp
next
  case (push_run runs todo run rest n)
  have run: "neighbours_ok cmp run \<and> mset run + mset rest = mset todo"
    using push_run.hyps(3) by (rule count_and_make_run_ok)
  then have grown: "neighbours_ok cmp (foldl (insert_pivot cmp) run (take n rest)) \<and>
      mset (foldl (insert_pivot cmp) run (take n rest)) = mset run + mset (take n rest)"
    using foldl_insert_pivot [of cmp run "take n rest"] by simp
  have "mset (take n rest) + mset (drop n rest) = mset rest" by (rule mset_take_drop)
  then have "mset run + mset (take n rest) + mset (drop n rest) = mset todo"
    using run by (simp add: add.assoc)
  then show ?case using push_run.IH grown by (simp add: add.assoc)
next
  case (merge_runs earlier A B later todo merged)
  have "neighbours_ok cmp A" "neighbours_ok cmp B" using merge_runs.IH by simp_all
  then have "neighbours_ok cmp merged \<and> mset merged = mset A + mset B"
    by (rule merge_at_ok [OF merge_runs.hyps(2)])
  then show ?case using merge_runs.IH by (simp add: add.assoc)
qed

lemma timsort_result_ok:
  assumes "timsort_result cmp xs ys"
  shows "mset ys = mset xs \<and> neighbours_ok cmp ys"
proof (cases "length xs < 2")
  case True
  then have "ys = xs" using assms by (simp add: timsort_result_def)
  moreover have "neighbours_ok cmp xs" using True by (cases xs) (auto simp: neighbours_ok_Cons)
  ultimately show ?thesis by simp
next
  case False
  then have "sort_state cmp xs [ys] []" using assms by (simp add: timsort_result_def)
  from sort_state_ok [OF this] show ?thesis by simp
qed

lemma host_sort_contract_if_timsort:
  "(\<And>cmp xs. timsort_result cmp xs (hsort cmp xs)) \<Longrightarrow> host_sort_contract hsort"
  unfolding host_sort_contract_def by (intro allI timsort_result_ok)

lemma timsort_result_short_array_sort: "timsort_result cmp xs (short_array_sort cmp xs)"
proof (cases "length xs < 2")
  case True
  then show ?thesis by (simp add: timsort_result_def short_array_sort_def)
next
  case False
  obtain run rest where cr: "count_and_make_run cmp xs = (run, rest)"
    by (cases "count_and_make_run cmp xs")
  have "xs \<noteq> []" using False by auto
  from sort_state.push_run [OF sort_state.start this cr, of "length rest"]
  have "sort_state cmp xs [foldl (insert_pivot cmp) run rest] []" by simp
  then show ?thesis using False cr by (simp add: timsort_result_def short_array_sort_def)
qed

text \<open>
  A merge of two runs, with a galloping step: the position of \<open>4\<close> in what is left of
  the right run is found by a search, and \<open>3\<close> is copied before it.
\<close>

lemma merge_at_gallops:
  "merge_at (\<lambda>x y. x - y) [1, 4, 5] [2, 3, 6 :: int] [1, 2, 3, 4, 5, 6]"
proof -
  let ?c = "\<lambda>x y :: int. x - y"
  let ?A = "[1, 4, 5 :: int]"
  let ?B = "[2, 3, 6 :: int]"
  let ?g1 = "\<lambda>e. ?c (hd ?B) e < 0"
  have "narrowed ?g1 ?A 1 1 1" by (rule narrowed.found)
  then have "narrowed ?g1 ?A 1 3 1" by (rule narrowed.probe_left [rotated 3]) simp_all
  then have "narrowed ?g1 ?A (0 + 1) 3 1" by simp
  then have "narrowed ?g1 ?A 0 3 1" by (rule narrowed.probe_right [rotated 3]) simp_all
  moreover have "length ?A = 3" by simp
  ultimately have 1: "narrowed ?g1 ?A 0 (length ?A) 1" by (simp only:)
  let ?g2 = "\<lambda>e. \<not> ?c e (last ?A) < 0"
  have "narrowed ?g2 ?B 2 2 2" by (rule narrowed.found)
  moreover have "(1 :: nat) + 1 = 2" by simp
  ultimately have "narrowed ?g2 ?B (1 + 1) 2 2" by (simp only:)
  then have "narrowed ?g2 ?B 0 2 2" by (rule narrowed.probe_right [rotated 3]) simp_all
  then have "narrowed ?g2 ?B 0 3 2" by (rule narrowed.probe_left [rotated 3]) simp_all
  moreover have "length ?B = 3" by simp
  ultimately have 2: "narrowed ?g2 ?B 0 (length ?B) 2" by (simp only:)
  let ?g3 = "\<lambda>e. \<not> ?c e 4 < 0"
  have "narrowed ?g3 [3] 1 1 1" by (rule narrowed.found)
  then have "narrowed ?g3 [3] (0 + 1) 1 1" by simp
  then have "narrowed ?g3 [3] 0 1 1" by (rule narrowed.probe_right [rotated 3]) simp_all
  moreover have "length [3 :: int] = 1" by simp
  ultimately have 3: "narrowed ?g3 [3] 0 (length [3 :: int]) 1" by (simp only:)
  have "forward_merge ?c ([1, 2] @ take 1 [3] @ [4]) [5] (drop 1 [3]) [1, 2, 3, 4, 5]"
    using forward_merge.right_empty [of ?c "[1, 2, 3, 4]" "[5]"] by simp
  then have "forward_merge ?c [1, 2] [4, 5] [3] [1, 2, 3, 4, 5]"
    by (rule forward_merge.gallop_right_run
          [where cmp = ?c and a = 4 and B = "[3]" and k = 1 and pre = "[1, 2]" and A = "[5]", OF 3])
  then have "forward_merge ?c ([1] @ [2]) [4, 5] [3] [1, 2, 3, 4, 5]" by simp
  then have "forward_merge ?c [1] [4, 5] [2, 3] [1, 2, 3, 4, 5]"
    by (rule forward_merge.take_right [where cmp = ?c and a = 4 and b = 2, rotated]) simp
  then have "forward_merge ?c (take 1 ?A) (drop 1 ?A) (take 2 ?B) [1, 2, 3, 4, 5]"
    by simp
  from merge_at.merge_low [where cmp = ?c and A = ?A and B = ?B and k = 1 and l = 2, OF _ 1 _ 2 this]
  show ?thesis by simp
qed

lemma neighbours_ok_if_sorted:
  "sorted_wrt (\<lambda>x y. cmp x y \<le> 0) xs \<Longrightarrow> neighbours_ok cmp xs"
proof -
  assume "sorted_wrt (\<lambda>x y. cmp x y \<le> 0) xs"
  then have "successively (\<lambda>x y. cmp x y \<le> 0) xs" by (rule successively_if_sorted_wrt)
  then have "successively (\<lambda>x y. \<not> (0 < cmp x y \<and> cmp y x < 0)) xs"
    by (rule successively_mono) auto
  then show ?thesis by (simp add: neighbours_ok_successively)
qed

text \<open>
  Then the comparator of the repository: asked either way and in either direction, it
  puts a row without a value after a row with one. So no engine meeting the contract
  leaves a null row directly before a row with a value.
\<close>

lemma value_before_null:
  "\<not> is_nullish (get_prop b column) \<Longrightarrow> is_nullish (get_prop a column) \<Longrightarrow>
   compare_rows lt column ascending b a < 0"
  by (auto simp: compare_rows_def Let_def strict_eq_def)

lemma null_after_value:
  "is_nullish (get_prop a column) \<Longrightarrow> \<not> is_nullish (get_prop b column) \<Longrightarrow>
   0 < compare_rows lt column ascending a b"
  by (auto simp: compare_rows_def Let_def strict_eq_def)

lemma nulls_follow_null:
  "is_nullish (get_prop x column) \<Longrightarrow>
   neighbours_ok (compare_rows lt column ascending) (x # rest) \<Longrightarrow>
   list_all (\<lambda>r. is_nullish (get_prop r column)) rest"
proof (induction rest arbitrary: x)
  case Nil
  then show ?case by simp
next
  case (Cons y rest)
  have "is_nullish (get_prop y column)"
  proof (rule ccontr)
    assume "\<not> is_nullish (get_prop y column)"
    then have "0 < compare_rows lt column ascending x y"
      and "compare_rows lt column ascending y x < 0"
      using Cons.prems(1) by (simp_all add: null_after_value value_before_null)
    with Cons.prems(2) show False by simp
  qed
  moreover from this Cons have "list_all (\<lambda>r. is_nullish (get_prop r column)) rest" by simp
  ultimately show ?case by simp
qed

lemma nulls_last_if_neighbours_ok:
  "neighbours_ok (compare_rows lt column ascending) xs \<Longrightarrow> nulls_last column xs"
proof (induction xs)
  case Nil
  then show ?case by simp
next
  case (Cons x xs)
  have tl: "neighbours_ok (compare_rows lt column ascending) xs"
    using Cons.prems by (cases xs) simp_all
  show ?case
  proof (cases "is_nullish (get_prop x column)")
    case True
    then show ?thesis using nulls_follow_null[OF True Cons.prems] by simp
  next
    case False
    then show ?thesis using Cons.IH[OF tl] by simp
  qed
qed

text \<open>In particular, whatever TimSort returns for these rows has the nulls last.\<close>

lemma timsort_nulls_last:
  "timsort_result (compare_rows lt column ascending) xs ys \<Longrightarrow> nulls_last column ys"
proof -
  assume "timsort_result (compare_rows lt column ascending) xs ys"
  then have "neighbours_ok (compare_rows lt column ascending) ys"
    using timsort_result_ok by blast
  then show ?thesis by (rule nulls_last_if_neighbours_ok)
qed

lemma nulls_last_nth:
  "nulls_last column xs \<Longrightarrow> i < length xs \<Longrightarrow> j < length xs \<Longrightarrow>
   is_nullish (get_prop (xs ! i) column) \<Longrightarrow> \<not> is_nullish (get_prop (xs ! j) column) \<Longrightarrow> j < i"
proof (induction xs arbitrary: i j)
  case Nil
  then show ?case by simp
next
  case (Cons x xs)
  show ?case
  proof (cases "is_nullish (get_prop x column)")
    case True
    with Cons.prems have "list_all (\<lambda>r. is_nullish (get_prop r column)) (x # xs)" by simp
    moreover have "(x # xs) ! j \<in> set (x # xs)" using Cons.prems(3) by (rule nth_mem)
    ultimately have "is_nullish (get_prop ((x # xs) ! j) column)"
      unfolding list_all_iff by blast
    with Cons.prems show ?thesis by simp
  next
    case False
    with Cons.prems have nl: "nulls_last column xs" by simp
    from False Cons.prems obtain i' where i: "i = Suc i'" by (cases i) auto
    show ?thesis
    proof (cases j)
      case 0
      with i show ?thesis by simp
    next
      case (Suc j')
      with Cons.IH[OF nl, of i' j'] Cons.prems i show ?thesis by simp
    qed
  qed
qed


text \<open>
  C7 (\<^verbatim>\<open>sortBy\<close> puts nulls last). Let the host's sort meet the contract: it returns
  the rows it was given, and leaves no two neighbours in an order the comparator denies
  both ways. Then for every dataset, column and direction, and whatever the operator
  \<^verbatim>\<open><\<close> answers on the values of the column: the rows of the result are the rows of
  the dataset in some order, so there are as many, and no row whose value in the column
  is \<^verbatim>\<open>null\<close> or \<^verbatim>\<open>undefined\<close> stands before a row whose value is neither.
\<close>

theorem C7_sortBy_nulls_last:
  assumes host: "host_sort_contract hsort"
    and run: "sortBy hsort lt d column ascending s = (d', s')"
  shows "length (array_at s' (rows d')) = length (array_at s (rows d)) \<and>
         mset (array_at s' (rows d')) = mset (array_at s (rows d)) \<and>
         (\<forall>i j. i < length (array_at s' (rows d')) \<and> j < length (array_at s' (rows d')) \<and>
                is_nullish (get_prop (array_at s' (rows d') ! i) column) \<and>
                \<not> is_nullish (get_prop (array_at s' (rows d') ! j) column) \<longrightarrow> j < i)"
proof -
  let ?cmp = "compare_rows lt column ascending"
  let ?out = "hsort ?cmp (array_at s (rows d))"
  have out: "array_at s' (rows d') = ?out"
    using run by (auto simp: sortBy_def Let_def split_beta)
  have m: "mset ?out = mset (array_at s (rows d))"
    and ok: "neighbours_ok ?cmp ?out"
    using host unfolding host_sort_contract_def by simp_all
  from m have l: "length ?out = length (array_at s (rows d))" by (rule mset_eq_length)
  have nl: "nulls_last column ?out" using ok by (rule nulls_last_if_neighbours_ok)
  have "j < i" if "i < length ?out" "j < length ?out"
      "is_nullish (get_prop (?out ! i) column)" "\<not> is_nullish (get_prop (?out ! j) column)"
    for i j
    using nulls_last_nth[OF nl that] .
  then show ?thesis unfolding out using m l by simp
qed

lemma short_sort_mixed:
  "short_array_sort (compare_rows number_lt ''a'' False) mixed_rows =
      [[(''a'', VNum (Fin 3))], [(''a'', VNum (Fin 2))], [(''a'', VNum (Fin 1))],
       [(''a'', VNull)], [(''b'', VBool True)]]"
  by (simp add: short_array_sort_def insert_pivot_def binary_position.simps mixed_rows_def
        compare_rows_def get_prop_def strict_eq_def Let_def)

lemma short_sort_unordered:
  "short_array_sort (compare_rows number_lt ''a'' True) unordered_rows = unordered_rows"
  by (simp add: short_array_sort_def insert_pivot_def binary_position.simps unordered_rows_def
        compare_rows_def get_prop_def strict_eq_def Let_def)

theorem C7_sortBy_nulls_last_witness:
  "host_sort_contract short_array_sort \<and>
   map (\<lambda>r. get_prop r ''a'')
     (array_at
        (snd (sortBy short_array_sort number_lt (fst (dataset_of_rows mixed_rows ''m'' store0))
                ''a'' False (snd (dataset_of_rows mixed_rows ''m'' store0))))
        (rows (fst (sortBy short_array_sort number_lt
                (fst (dataset_of_rows mixed_rows ''m'' store0))
                ''a'' False (snd (dataset_of_rows mixed_rows ''m'' store0))))))
     = [VNum (Fin 3), VNum (Fin 2), VNum (Fin 1), VNull, VUndefined] \<and>
   length
     (array_at
        (snd (sortBy short_array_sort number_lt (fst (dataset_of_rows mixed_rows ''m'' store0))
                ''a'' False (snd (dataset_of_rows mixed_rows ''m'' store0))))
        (rows (fst (sortBy short_array_sort number_lt
                (fst (dataset_of_rows mixed_rows ''m'' store0))
                ''a'' False (snd (dataset_of_rows mixed_rows ''m'' store0))))))
     = length mixed_rows"
proof -
  let ?ds = "dataset_of_rows mixed_rows ''m'' store0"
  let ?res = "sortBy short_array_sort number_lt (fst ?ds) ''a'' False (snd ?ds)"
  have host: "host_sort_contract short_array_sort"
    by (rule host_sort_contract_short_array_sort)
  have run: "?res = (fst ?res, snd ?res)" by simp
  have out: "array_at (snd ?res) (rows (fst ?res)) =
      [[(''a'', VNum (Fin 3))], [(''a'', VNum (Fin 2))], [(''a'', VNum (Fin 1))],
       [(''a'', VNull)], [(''b'', VBool True)]]"
    unfolding sortBy_def array_at_dataset_of_rows short_sort_mixed
    by (simp add: split_beta Let_def)
  have col: "map (\<lambda>r. get_prop r ''a'') (array_at (snd ?res) (rows (fst ?res))) =
      [VNum (Fin 3), VNum (Fin 2), VNum (Fin 1), VNull, VUndefined]"
    unfolding out by (simp add: get_prop_def)
  from C7_sortBy_nulls_last[OF host run] have
    "length (array_at (snd ?res) (rows (fst ?res))) = length (array_at (snd ?ds) (rows (fst ?ds)))"
    by blast
  then have "length (array_at (snd ?res) (rows (fst ?res))) = length mixed_rows"
    unfolding array_at_dataset_of_rows .
  with host col show ?thesis by blast
qed

subsection \<open>\<^verbatim>\<open>aggregate\<close>\<close>

lemma map_of_foldl_update:
  "map_of (foldl (\<lambda>row (alias, spec). AList.update alias (f spec) row) init aggs) k =
     (case map_of (rev aggs) k of Some spec \<Rightarrow> Some (f spec) | None \<Rightarrow> map_of init k)"
proof (induction aggs arbitrary: init)
  case Nil
  then show ?case by simp
next
  case (Cons a aggs)
  obtain al sp where a: "a = (al, sp)" by (cases a)
  show ?case
    by (simp add: a Cons.IH update_conv map_add_def split: option.splits)
qed

lemma get_prop_aggregate_group:
  assumes "distinct (map fst aggregations)" and "(alias, spec) \<in> set aggregations"
  shows "get_prop (aggregate_group groupColumn aggregations g) alias = aggregate_value (snd g) spec"
proof -
  have "distinct (map fst (rev aggregations))" using assms(1) by (simp add: rev_map[symmetric])
  moreover have "(alias, spec) \<in> set (rev aggregations)" using assms(2) by simp
  ultimately have "map_of (rev aggregations) alias = Some spec" by (rule map_of_is_SomeI)
  then show ?thesis
    by (simp add: get_prop_def aggregate_group_def set_prop_def map_of_foldl_update)
qed

lemma group_rows_snoc:
  "group_rows c (rs @ [r]) = add_to_group (group_rows c rs) (get_prop r c) r"
  by (simp add: group_rows_def)

lemma group_rows_map_of:
  "distinct (map fst (group_rows c rs)) \<and>
   (\<forall>k. map_of (group_rows c rs) k =
      (if k \<in> (\<lambda>r. get_prop r c) ` set rs then Some (filter (\<lambda>r. get_prop r c = k) rs) else None))"
proof (induction rs rule: rev_induct)
  case Nil
  then show ?case by (simp add: group_rows_def)
next
  case (snoc r rs)
  let ?G = "group_rows c rs"
  let ?key = "get_prop r c"
  have grp: "(case map_of ?G ?key of None \<Rightarrow> [] | Some g \<Rightarrow> g) = filter (\<lambda>r. get_prop r c = ?key) rs"
  proof (cases "?key \<in> (\<lambda>r. get_prop r c) ` set rs")
    case True
    with snoc show ?thesis by simp
  next
    case False
    then have "\<forall>x\<in>set rs. get_prop x c \<noteq> ?key" by (metis image_eqI)
    then have "filter (\<lambda>r. get_prop r c = ?key) rs = []" by (simp add: filter_empty_conv)
    with False snoc show ?thesis by simp
  qed
  have step: "group_rows c (rs @ [r]) = AList.update ?key (filter (\<lambda>r. get_prop r c = ?key) rs @ [r]) ?G"
    by (simp add: group_rows_snoc add_to_group_def grp Let_def)
  have d: "distinct (map fst (group_rows c (rs @ [r])))"
    unfolding step using snoc by (simp add: distinct_update)
  have m: "map_of (group_rows c (rs @ [r])) k =
      (if k \<in> (\<lambda>r. get_prop r c) ` set (rs @ [r])
       then Some (filter (\<lambda>r. get_prop r c = k) (rs @ [r])) else None)" for k
    unfolding step update_conv using snoc by auto
  from d m show ?case by blast
qed

lemma group_rows_nth:
  assumes "i < length (group_rows c rs)" and "group_rows c rs ! i = (key, grows)"
  shows "grows = filter (\<lambda>r. get_prop r c = key) rs \<and> grows \<noteq> []"
proof -
  have mem: "(key, grows) \<in> set (group_rows c rs)" using assms by (metis nth_mem)
  moreover have "distinct (map fst (group_rows c rs))" using group_rows_map_of[of c rs] by simp
  ultimately have "map_of (group_rows c rs) key = Some grows"
    by (simp add: map_of_is_SomeI)
  with group_rows_map_of[of c rs] have
    "(if key \<in> (\<lambda>r. get_prop r c) ` set rs then Some (filter (\<lambda>r. get_prop r c = key) rs) else None) = Some grows"
    by simp
  then have k: "key \<in> (\<lambda>r. get_prop r c) ` set rs" and g: "grows = filter (\<lambda>r. get_prop r c = key) rs"
    by (auto split: if_splits)
  from k have "filter (\<lambda>r. get_prop r c = key) rs \<noteq> []" by (auto simp: filter_empty_conv)
  with g show ?thesis by simp
qed


lemma aggregate_rows:
  "aggregate d groupColumn aggregations s = (d', s') \<Longrightarrow>
   array_at s' (rows d') =
     map (aggregate_group groupColumn aggregations) (group_rows groupColumn (array_at s (rows d)))"
  by (auto simp: aggregate_def Let_def split_beta)

text \<open>
  C5 (\<^verbatim>\<open>aggregate\<close>). Let the aliases of \<open>aggregations\<close> be distinct (they are the
  keys of an object), let \<open>(aliasName, spec)\<close> be one of its entries, and let
  \<open>(key, grows)\<close> be the \<open>i\<close>-th group. Then \<open>grows\<close> are the rows of the dataset whose
  group column is \<open>key\<close>, the result has one row for each group, and the \<open>i\<close>-th row of
  the result holds under \<open>aliasName\<close> a value computed from \<open>numeric\<close>, the numbers
  of the source column in the group, alone: their sum; their average, or 0 when there is
  none; their minimum or maximum, or \<^verbatim>\<open>null\<close> when there is none; and for
  \<^verbatim>\<open>count\<close> the number of rows of the group, whatever they hold.
\<close>

theorem C5_aggregate_values:
  assumes dist: "distinct (map fst aggregations)"
    and mem: "(aliasName, spec) \<in> set aggregations"
    and run: "aggregate d groupColumn aggregations s = (d', s')"
    and i: "i < length (group_rows groupColumn (array_at s (rows d)))"
    and grp: "group_rows groupColumn (array_at s (rows d)) ! i = (key, grows)"
    and num: "numeric = map number_of
                 (filter is_number (map (\<lambda>r. get_prop r (agg_column spec)) grows))"
  shows "grows = filter (\<lambda>r. get_prop r groupColumn = key) (array_at s (rows d)) \<and>
         length (array_at s' (rows d')) = length (group_rows groupColumn (array_at s (rows d))) \<and>
         (agg_fn spec = AggSum \<longrightarrow>
            get_prop (array_at s' (rows d') ! i) aliasName = VNum (foldl num_add (Fin 0) numeric)) \<and>
         (agg_fn spec = AggAvg \<longrightarrow>
            get_prop (array_at s' (rows d') ! i) aliasName =
              (if numeric = [] then VNum (Fin 0)
               else VNum (num_div (foldl num_add (Fin 0) numeric) (Fin (real (length numeric)))))) \<and>
         (agg_fn spec = AggCount \<longrightarrow>
            get_prop (array_at s' (rows d') ! i) aliasName = VNum (Fin (real (length grows)))) \<and>
         (agg_fn spec = AggMin \<longrightarrow>
            get_prop (array_at s' (rows d') ! i) aliasName =
              (if numeric = [] then VNull else VNum (fold num_min (tl numeric) (hd numeric)))) \<and>
         (agg_fn spec = AggMax \<longrightarrow>
            get_prop (array_at s' (rows d') ! i) aliasName =
              (if numeric = [] then VNull else VNum (fold num_max (tl numeric) (hd numeric)))) \<and>
         (numeric = [] \<and> (agg_fn spec = AggSum \<or> agg_fn spec = AggAvg) \<longrightarrow>
            get_prop (array_at s' (rows d') ! i) aliasName = VNum (Fin 0)) \<and>
         (numeric = [] \<and> (agg_fn spec = AggMin \<or> agg_fn spec = AggMax) \<longrightarrow>
            get_prop (array_at s' (rows d') ! i) aliasName = VNull)"
proof -
  let ?groups = "group_rows groupColumn (array_at s (rows d))"
  have g: "grows = filter (\<lambda>r. get_prop r groupColumn = key) (array_at s (rows d))"
    using group_rows_nth[OF i grp] by simp
  have out: "array_at s' (rows d') = map (aggregate_group groupColumn aggregations) ?groups"
    using run by (rule aggregate_rows)
  have len: "length (array_at s' (rows d')) = length ?groups" by (simp add: out)
  have "array_at s' (rows d') ! i = aggregate_group groupColumn aggregations (key, grows)"
    using i grp by (simp add: out)
  then have v: "get_prop (array_at s' (rows d') ! i) aliasName = aggregate_value grows spec"
    using get_prop_aggregate_group[OF dist mem, of groupColumn "(key, grows)"] by simp
  have val: "aggregate_value grows spec =
      (case agg_fn spec of
         AggSum \<Rightarrow> VNum (foldl num_add (Fin 0) numeric)
       | AggAvg \<Rightarrow> (if numeric = [] then VNum (Fin 0)
                    else VNum (num_div (foldl num_add (Fin 0) numeric) (Fin (real (length numeric)))))
       | AggCount \<Rightarrow> VNum (Fin (real (length grows)))
       | AggMin \<Rightarrow> (if numeric = [] then VNull else VNum (fold num_min (tl numeric) (hd numeric)))
       | AggMax \<Rightarrow> (if numeric = [] then VNull else VNum (fold num_max (tl numeric) (hd numeric))))"
    unfolding aggregate_value_def num[symmetric] Let_def
    by (cases "agg_fn spec"; cases numeric) simp_all
  show ?thesis
    unfolding v val using g len by (cases "agg_fn spec") simp_all
qed

lemma sales_groups:
  "group_rows ''g'' sales_rows =
     [(VStr ''x'', [[(''g'', VStr ''x''), (''n'', VNum (Fin 1))], [(''g'', VStr ''x''), (''n'', VNum (Fin 4))]]),
      (VStr ''y'', [[(''g'', VStr ''y''), (''n'', VStr ''seven'')], [(''g'', VStr ''y''), (''n'', VNull)]])]"
  by (simp add: group_rows_def sales_rows_def add_to_group_def get_prop_def)

theorem C5_aggregate_values_witness:
  "distinct (map fst all_aggregations) \<and>
   group_rows ''g''
     (array_at (snd (dataset_of_rows sales_rows ''sales'' store0))
        (rows (fst (dataset_of_rows sales_rows ''sales'' store0)))) ! 1
     = (VStr ''y'', [[(''g'', VStr ''y''), (''n'', VStr ''seven'')],
                     [(''g'', VStr ''y''), (''n'', VNull)]]) \<and>
   map (get_prop
          (array_at
             (snd (aggregate (fst (dataset_of_rows sales_rows ''sales'' store0)) ''g''
                     all_aggregations (snd (dataset_of_rows sales_rows ''sales'' store0))))
             (rows (fst (aggregate (fst (dataset_of_rows sales_rows ''sales'' store0)) ''g''
                     all_aggregations (snd (dataset_of_rows sales_rows ''sales'' store0))))) ! 1))
       [''total'', ''average'', ''size'', ''low'', ''high'']
     = [VNum (Fin 0), VNum (Fin 0), VNum (Fin 2), VNull, VNull]"
proof -
  let ?ds = "dataset_of_rows sales_rows ''sales'' store0"
  let ?res = "aggregate (fst ?ds) ''g'' all_aggregations (snd ?ds)"
  let ?y = "[[(''g'', VStr ''y''), (''n'', VStr ''seven'')], [(''g'', VStr ''y''), (''n'', VNull)]]"
  have rs: "array_at (snd ?ds) (rows (fst ?ds)) = sales_rows"
    by (rule array_at_dataset_of_rows)
  have dist: "distinct (map fst all_aggregations)" by (simp add: all_aggregations_def)
  have run: "?res = (fst ?res, snd ?res)" by simp
  have i: "1 < length (group_rows ''g'' (array_at (snd ?ds) (rows (fst ?ds))))"
    unfolding rs sales_groups by simp
  have grp: "group_rows ''g'' (array_at (snd ?ds) (rows (fst ?ds))) ! 1 = (VStr ''y'', ?y)"
    unfolding rs sales_groups by simp
  have none_sym: "[] = map number_of (filter is_number
      (map (\<lambda>r. get_prop r (agg_column \<lparr>agg_column = ''n'', agg_fn = f\<rparr>)) ?y))" for f
    by (simp add: get_prop_def)
  have m1: "(''total'', \<lparr>agg_column = ''n'', agg_fn = AggSum\<rparr>) \<in> set all_aggregations"
    and m2: "(''average'', \<lparr>agg_column = ''n'', agg_fn = AggAvg\<rparr>) \<in> set all_aggregations"
    and m3: "(''size'', \<lparr>agg_column = ''n'', agg_fn = AggCount\<rparr>) \<in> set all_aggregations"
    and m4: "(''low'', \<lparr>agg_column = ''n'', agg_fn = AggMin\<rparr>) \<in> set all_aggregations"
    and m5: "(''high'', \<lparr>agg_column = ''n'', agg_fn = AggMax\<rparr>) \<in> set all_aggregations"
    by (simp_all add: all_aggregations_def)
  let ?out = "array_at (snd ?res) (rows (fst ?res)) ! 1"
  have "get_prop ?out ''total'' = VNum (Fin 0)"
    using C5_aggregate_values[OF dist m1 run i grp none_sym] by simp
  moreover have "get_prop ?out ''average'' = VNum (Fin 0)"
    using C5_aggregate_values[OF dist m2 run i grp none_sym] by simp
  moreover have "get_prop ?out ''size'' = VNum (Fin 2)"
    using C5_aggregate_values[OF dist m3 run i grp refl] by simp
  moreover have "get_prop ?out ''low'' = VNull"
    using C5_aggregate_values[OF dist m4 run i grp none_sym] by simp
  moreover have "get_prop ?out ''high'' = VNull"
    using C5_aggregate_values[OF dist m5 run i grp none_sym] by simp
  ultimately show ?thesis using dist grp by simp
qed

subsection \<open>New arrays, and \<^verbatim>\<open>normalize\<close>\<close>

text \<open>
  Each transform modelled here allocates the array of its result and leaves the store it
  found as it was, so the array of its argument keeps its contents and differs from the
  new one; \<^verbatim>\<open>normalize\<close> does so only when the column holds a number.
\<close>

lemma dropNulls_allocates:
  "dropNulls d columns s = (d', s') \<Longrightarrow>
   rows d' = length (arrays s) \<and> (\<exists>xs. s' = s\<lparr>arrays := arrays s @ [xs]\<rparr>)"
  by (auto simp: dropNulls_def alloc_def Let_def)

lemma aggregate_allocates:
  "aggregate d groupColumn aggregations s = (d', s') \<Longrightarrow>
   rows d' = length (arrays s) \<and> (\<exists>xs. s' = s\<lparr>arrays := arrays s @ [xs]\<rparr>)"
  by (auto simp: aggregate_def alloc_def Let_def)

lemma normalize_column_allocates:
  "getNumericColumn s d column \<noteq> [] \<Longrightarrow> normalize_column d column s = (d', s') \<Longrightarrow>
   rows d' = length (arrays s) \<and> (\<exists>xs. s' = s\<lparr>arrays := arrays s @ [xs]\<rparr>)"
  by (auto simp: normalize_column_def alloc_def Let_def split: list.splits if_splits)

lemma normalize_column_returns_argument:
  "getNumericColumn s d column = [] \<Longrightarrow> normalize_column d column s = (d, s)"
  by (simp add: normalize_column_def)

lemma fresh_array_keeps_argument:
  "rows d < length (arrays s) \<Longrightarrow> rows d' = length (arrays s) \<Longrightarrow>
   s' = s\<lparr>arrays := arrays s @ [xs]\<rparr> \<Longrightarrow>
   rows d' \<noteq> rows d \<and> array_at s' (rows d) = array_at s (rows d)"
  by (simp add: array_at_def nth_append)

lemmas dataset_example_defs =
  dataset_of_rows_def store0_def alloc_def array_at_def createDataset_def inferSchema_def
  columnNames_def object_keys_def add_name_def get_prop_def set_prop_def
  getNumericColumn_def normalize_column_def Let_def split_beta

text \<open>
  C3 (a transform returns a new rows array). The claim asks that the dataset a transform
  returns holds a rows array other than the one it was given. On the dataset made from
  \<^verbatim>\<open>[{v: 'x'}, {v: 'y'}]\<close>, whose column \<^verbatim>\<open>v\<close> holds no number,
  \<^verbatim>\<open>normalize\<close> returns the dataset it was given: the same reference to the rows
  array (reference 0), and nothing is allocated. On \<^verbatim>\<open>[{v: 0}, {v: 50}, {v: 100}]\<close>
  it allocates a new array (reference 1) holding the values 0, 1/2 and 1, and leaves the
  array of its argument as it was.
\<close>

theorem C3_normalize_returns_its_argument:
  "fst (normalize_column (fst (dataset_of_rows label_rows ''labels'' store0)) ''v''
          (snd (dataset_of_rows label_rows ''labels'' store0)))
     = fst (dataset_of_rows label_rows ''labels'' store0) \<and>
   rows (fst (dataset_of_rows label_rows ''labels'' store0)) = 0 \<and>
   rows (fst (normalize_column (fst (dataset_of_rows label_rows ''labels'' store0)) ''v''
          (snd (dataset_of_rows label_rows ''labels'' store0)))) = 0 \<and>
   snd (normalize_column (fst (dataset_of_rows label_rows ''labels'' store0)) ''v''
          (snd (dataset_of_rows label_rows ''labels'' store0)))
     = snd (dataset_of_rows label_rows ''labels'' store0) \<and>
   rows (fst (dataset_of_rows percent_rows ''percent'' store0)) = 0 \<and>
   rows (fst (normalize_column (fst (dataset_of_rows percent_rows ''percent'' store0)) ''v''
          (snd (dataset_of_rows percent_rows ''percent'' store0)))) = 1 \<and>
   arrays (snd (normalize_column (fst (dataset_of_rows percent_rows ''percent'' store0)) ''v''
          (snd (dataset_of_rows percent_rows ''percent'' store0))))
     = [percent_rows,
        [[(''v'', VNum (Fin 0))], [(''v'', VNum (Fin (1 / 2)))], [(''v'', VNum (Fin 1))]]]"
  by (simp add: dataset_example_defs label_rows_def percent_rows_def)

end
